theory Spec2Isabelle
  imports Main
begin

section \<open>The csvts parser (src/lib/parser.ts)\<close>

text \<open>
  A shallow embedding of the class \<open>CsvParser\<close>: the row tokenizer \<open>parseRow\<close>, the
  type conversion \<open>convertType\<close> and the materializer \<open>processData\<close>.

  Conventions of the embedding.
  \<^item> A JavaScript string is a \<^typ>\<open>string\<close>, one \<^typ>\<open>char\<close> per code unit; \<open>s[i]\<close> out of
    range is \<open>undefined\<close>, here \<^term>\<open>None\<close>.
  \<^item> A thrown exception is the left summand of a sum type.
  \<^item> An object used as a dictionary (\<open>parsers\<close>, \<open>renameHeaders\<close>, a row with headers) is
    an object literal: a map of its own properties, with \<open>Object.prototype\<close> as its
    prototype. A property read \<open>obj[key]\<close> finds the own property first and then the
    member of \<open>Object.prototype\<close> of that name; an assignment runs the inherited setter
    of \<open>__proto__\<close>.
  \<^item> The built-in functions of the host (\<open>Number\<close>, \<open>isNaN\<close>, \<open>new Date\<close>, \<open>getTime\<close>, the
    methods of \<open>Object.prototype\<close>) are parameters (the record \<open>host\<close>), as are the
    types of numbers, dates and other objects.
\<close>

subsection \<open>Strings of the host language\<close>

text \<open>\<open>s[i]\<close>: the code unit at index \<open>i\<close>, \<open>undefined\<close> outside the string. The index is
  an \<^typ>\<open>int\<close> because the tokenizer reads \<open>row[i - 1]\<close>.\<close>

definition charAt :: "string \<Rightarrow> int \<Rightarrow> char option" where
  "charAt s i = (if 0 \<le> i \<and> i < int (length s) then Some (s ! nat i) else None)"

text \<open>\<open>c === s\<close> for a value \<open>c\<close> read by indexing and a string \<open>s\<close> of the options: true
  only if \<open>s\<close> is the one-unit string of that unit.\<close>

definition is_char :: "char option \<Rightarrow> string \<Rightarrow> bool" where
  "is_char c s = (case c of None \<Rightarrow> False | Some x \<Rightarrow> s = [x])"

text \<open>\<open>s.slice(0, -1)\<close>: all but the last unit; the empty string stays empty.\<close>

definition slice_0_m1 :: "string \<Rightarrow> string" where
  "slice_0_m1 s = butlast s"

text \<open>\<open>s.startsWith(p)\<close>.\<close>

definition startsWith :: "string \<Rightarrow> string \<Rightarrow> bool" where
  "startsWith s p = (take (length p) s = p)"

text \<open>\<open>s.includes(p)\<close>.\<close>

fun includes_str :: "string \<Rightarrow> string \<Rightarrow> bool" where
  "includes_str [] p = (p = [])"
| "includes_str (c # cs) p = (startsWith (c # cs) p \<or> includes_str cs p)"

text \<open>\<open>s.trim()\<close> removes white space and line terminators at both ends; among the code
  units below 256 these are TAB, LF, VT, FF, CR, SP and NBSP.\<close>

definition isWhiteSpace :: "char \<Rightarrow> bool" where
  "isWhiteSpace c =
     (c \<in> set [CHR 0x09, CHR 0x0A, CHR 0x0B, CHR 0x0C, CHR 0x0D, CHR 0x20, CHR 0xA0])"

definition trim :: "string \<Rightarrow> string" where
  "trim s = rev (dropWhile isWhiteSpace (rev (dropWhile isWhiteSpace s)))"

text \<open>\<open>s.split(sep)\<close> for a string separator. With the empty separator the result is the
  list of the code units (none for the empty string); otherwise the string is cut at each
  leftmost occurrence of the separator, and the empty string gives one empty piece.\<close>

function split_from :: "string \<Rightarrow> string \<Rightarrow> string \<Rightarrow> string list" where
  "split_from sep acc [] = [acc]"
| "split_from sep acc (c # cs) =
     (if sep \<noteq> [] \<and> startsWith (c # cs) sep
      then acc # split_from sep [] (drop (length sep) (c # cs))
      else split_from sep (acc @ [c]) cs)"
  by pat_completeness auto
termination
  by (relation "measure (\<lambda>(sep, acc, s). length s)") auto

definition split :: "string \<Rightarrow> string \<Rightarrow> string list" where
  "split s sep = (if sep = [] then map (\<lambda>c. [c]) s else split_from sep [] s)"

subsection \<open>The row tokenizer\<close>

text \<open>The \<open>while\<close> loop of \<open>parseRow\<close>, with its local variables \<open>values\<close>,
  \<open>currentValue\<close>, \<open>isQuoted\<close> and \<open>i\<close> as arguments; it ends with
  \<open>values.push(currentValue)\<close>.\<close>

function parseRow_loop ::
  "string \<Rightarrow> string \<Rightarrow> string \<Rightarrow> string \<Rightarrow> string list \<Rightarrow> string \<Rightarrow> bool \<Rightarrow> nat
     \<Rightarrow> string list" where
  "parseRow_loop delim quote esc row vals currentValue isQuoted i =
     (if i < length row then
        (let char = row ! i in
         if [char] = quote then
           if isQuoted \<and> is_char (charAt row (int i + 1)) delim
           then parseRow_loop delim quote esc row vals currentValue False (i + 2)
           else if \<not> isQuoted \<and> currentValue = []
           then parseRow_loop delim quote esc row vals currentValue True (i + 1)
           else if is_char (charAt row (int i - 1)) esc
           then parseRow_loop delim quote esc row vals
                  (slice_0_m1 currentValue @ [char]) isQuoted (i + 1)
           else parseRow_loop delim quote esc row vals currentValue (\<not> isQuoted) (i + 1)
         else if [char] = delim \<and> \<not> isQuoted
         then parseRow_loop delim quote esc row (vals @ [currentValue]) [] isQuoted (i + 1)
         else parseRow_loop delim quote esc row vals (currentValue @ [char]) isQuoted (i + 1))
      else vals @ [currentValue])"
  by pat_completeness auto
termination
  by (relation "measure (\<lambda>(delim, quote, esc, row, vals, cur, q, i). length row - i)") auto

declare parseRow_loop.simps [simp del]

subsection \<open>Values, options and results\<close>

text \<open>The values a field can hold (\<open>any\<close> in the source): what \<open>convertType\<close> builds, and
  \<open>VOther\<close> for whatever else a custom parser or the transform returns.\<close>

datatype ('n, 'd, 'x) jsvalue =
    VString string
  | VNull
  | VUndefined
  | VBool bool
  | VNumber 'n
  | VDate 'd
  | VOther 'x

text \<open>What a \<open>throw\<close> carries: an \<open>Error\<close> with its message, or any other value.\<close>

datatype ('n, 'd, 'x) thrown =
    ErrorObject string
  | ThrownValue "('n, 'd, 'x) jsvalue"

text \<open>The names of the members that an object literal inherits from \<open>Object.prototype\<close>
  (ECMAScript with its Annex B, as in Node.js and in browsers). All are functions, except
  \<open>__proto__\<close>, an accessor whose getter returns \<open>Object.prototype\<close> itself.\<close>

definition inherited_names :: "string list" where
  "inherited_names =
     [''constructor'', ''__defineGetter__'', ''__defineSetter__'', ''hasOwnProperty'',
      ''__lookupGetter__'', ''__lookupSetter__'', ''isPrototypeOf'', ''propertyIsEnumerable'',
      ''toString'', ''valueOf'', ''__proto__'', ''toLocaleString'']"

definition inherited :: "string \<Rightarrow> bool" where
  "inherited name = (name \<in> set inherited_names)"

text \<open>An element of \<open>headers\<close>: a string, or the member of \<open>Object.prototype\<close> of the given
  name, which \<open>renameHeaders[h] || h\<close> yields for a header \<open>h\<close> of that name that has no own
  entry in \<open>renameHeaders\<close>.\<close>

datatype header = HeaderString string | HeaderInherited string

text \<open>The key of the callback of \<open>row.forEach\<close> and second argument of \<open>transform\<close>: an
  element of \<open>headers\<close>, \<open>undefined\<close> (no header at that index), or the index when headers
  are off.\<close>

datatype field = FieldHeader header | FieldUndefined | FieldIndex nat

datatype skipEmpty = SkipEmptyBool bool | SkipEmptyGreedy

datatype dynTyping = DynTypingBool bool | DynTypingMap "string \<rightharpoonup> bool"

datatype commentsOpt = CommentsBool bool | CommentsString string

text \<open>\<open>Required<CsvParseOptions>\<close>, without \<open>encoding\<close>, which only \<open>parseFile\<close> reads.
  \<open>preview\<close> is taken to be an integer. \<open>parsers\<close> and \<open>renameHeaders\<close> are the own
  properties of the two objects.\<close>

record ('n, 'd, 'x) CsvParseOptions =
  delimiter :: string
  newline :: string
  quoteChar :: string
  escapeChar :: string
  header :: bool
  skipEmptyLines :: skipEmpty
  transformHeader :: "string \<Rightarrow> ('n, 'd, 'x) thrown + string"
  transform :: "('n, 'd, 'x) jsvalue \<Rightarrow> field \<Rightarrow> ('n, 'd, 'x) thrown + ('n, 'd, 'x) jsvalue"
  dynamicTyping :: dynTyping
  comments :: commentsOpt
  skipInvalidLines :: bool
  preview :: int
  parsers :: "string \<rightharpoonup> (string \<Rightarrow> ('n, 'd, 'x) thrown + ('n, 'd, 'x) jsvalue)"
  renameHeaders :: "string \<rightharpoonup> string"

text \<open>The defaults of the constructor.\<close>

definition default_options :: "('n, 'd, 'x) CsvParseOptions" where
  "default_options =
     \<lparr>delimiter = '','', newline = ''auto'', quoteChar = [CHR 0x22], escapeChar = [CHR 0x22],
      header = True, skipEmptyLines = SkipEmptyBool True,
      transformHeader = (\<lambda>h. Inr h), transform = (\<lambda>v f. Inr v),
      dynamicTyping = DynTypingBool False, comments = CommentsBool False,
      skipInvalidLines = False, preview = 0, parsers = Map.empty,
      renameHeaders = Map.empty\<rparr>"

text \<open>Truthiness of the options that are tested as conditions.\<close>

fun skipEmptyLines_on :: "skipEmpty \<Rightarrow> bool" where
  "skipEmptyLines_on (SkipEmptyBool b) = b"
| "skipEmptyLines_on SkipEmptyGreedy = True"

fun dynamicTyping_on :: "dynTyping \<Rightarrow> bool" where
  "dynamicTyping_on (DynTypingBool b) = b"
| "dynamicTyping_on (DynTypingMap m) = True"

fun comments_on :: "commentsOpt \<Rightarrow> bool" where
  "comments_on (CommentsBool b) = b"
| "comments_on (CommentsString s) = (s \<noteq> [])"

text \<open>\<open>typeof comments === 'string' ? comments : '#'\<close>\<close>

fun commentChar :: "commentsOpt \<Rightarrow> string" where
  "commentChar (CommentsString s) = s"
| "commentChar (CommentsBool b) = ''#''"

record CsvError =
  error_type :: string
  error_code :: string
  error_message :: string
  error_row :: "nat option"
  error_index :: "nat option"

record CsvMeta =
  meta_delimiter :: string
  linebreak :: string
  truncated :: bool
  meta_fields :: "header list option"
  rows :: nat

text \<open>The prototype of a row object: \<open>Object.prototype\<close>, as \<open>{}\<close> has it, or the value
  (an object or \<open>null\<close>) that an assignment to \<open>__proto__\<close> has put in its place.\<close>

datatype ('n, 'd, 'x) rowProto = DefaultProto | ReplacedProto "('n, 'd, 'x) jsvalue"

text \<open>A row: an object (its own properties and its prototype), or an array.\<close>

datatype ('n, 'd, 'x) parsedRow =
    RowObject "string \<rightharpoonup> ('n, 'd, 'x) jsvalue" "('n, 'd, 'x) rowProto"
  | RowArray "('n, 'd, 'x) jsvalue list"

record ('n, 'd, 'x) CsvParseResult =
  data :: "('n, 'd, 'x) parsedRow list"
  errors :: "CsvError list"
  meta :: CsvMeta

text \<open>The built-in functions of the host that the parse reaches.
  \<^item> \<open>Number\<close>, \<open>isNaN\<close>, \<open>Date\<close>, \<open>getTime\<close>: called by \<open>convertType\<close>.
  \<^item> \<open>nativeSource name\<close>: what follows the word \<open>function\<close> in the string that
    \<open>Function.prototype.toString\<close> gives for the inherited function of that name; this
    string is the property key of the function.
  \<^item> \<open>typeErrorMessage\<close>: the message of the \<open>TypeError\<close> raised by a call of a value
    that is not a function.
  \<^item> \<open>callInherited name obj v\<close>: the call \<open>obj[name](v)\<close> of the function of that name
    inherited from \<open>Object.prototype\<close>, on the object with own properties \<open>obj\<close>.
  \<^item> \<open>isObject x\<close>: whether the value \<open>x\<close> is an object.
  \<^item> \<open>assignThrough proto own key v\<close>: the assignment \<open>row[key] = v\<close> on a row with own
    properties \<open>own\<close>, none of them \<open>key\<close>, whose prototype has been replaced by the
    object \<open>proto\<close>.\<close>

record ('n, 'd, 'x) host =
  Number :: "string \<Rightarrow> 'n"
  isNaN :: "'n \<Rightarrow> bool"
  Date :: "string \<Rightarrow> 'd"
  getTime :: "'d \<Rightarrow> 'n"
  nativeSource :: "string \<Rightarrow> string"
  typeErrorMessage :: string
  callInherited ::
    "string \<Rightarrow> (string \<rightharpoonup> (string \<Rightarrow> ('n, 'd, 'x) thrown + ('n, 'd, 'x) jsvalue)) \<Rightarrow> string
       \<Rightarrow> ('n, 'd, 'x) thrown + ('n, 'd, 'x) jsvalue"
  isObject :: "'x \<Rightarrow> bool"
  assignThrough ::
    "('n, 'd, 'x) jsvalue \<Rightarrow> (string \<rightharpoonup> ('n, 'd, 'x) jsvalue) \<Rightarrow> string \<Rightarrow> ('n, 'd, 'x) jsvalue
       \<Rightarrow> ('n, 'd, 'x) thrown + ('n, 'd, 'x) parsedRow"

subsection \<open>The methods of \<open>CsvParser\<close>\<close>

definition detectNewline :: "string \<Rightarrow> string" where
  "detectNewline text =
     (if includes_str text [CHR 0x0D, CHR 0x0A] then [CHR 0x0D, CHR 0x0A]
      else if includes_str text [CHR 0x0A] then [CHR 0x0A]
      else if includes_str text [CHR 0x0D] then [CHR 0x0D]
      else [CHR 0x0A])"

definition parseRow :: "('n, 'd, 'x) CsvParseOptions \<Rightarrow> string \<Rightarrow> string list" where
  "parseRow opts row =
     parseRow_loop (delimiter opts) (quoteChar opts) (escapeChar opts) row [] [] False 0"

definition convertType ::
  "('n, 'd, 'x) CsvParseOptions \<Rightarrow> ('n, 'd, 'x) host \<Rightarrow> string \<Rightarrow> ('n, 'd, 'x) jsvalue" where
  "convertType opts h v =
     (if \<not> dynamicTyping_on (dynamicTyping opts) then VString v
      else if v = [] then VNull
      else if v = ''true'' then VBool True
      else if v = ''false'' then VBool False
      else if v = ''null'' then VNull
      else if v = ''undefined'' then VUndefined
      else (let num = Number h v in
        if \<not> isNaN h num then VNumber num
        else (let date = Date h v in
          if \<not> isNaN h (getTime h date) then VDate date
          else VString v)))"

text \<open>The key of the callback of \<open>row.forEach\<close>:
  \<open>this.options.header ? headers[index] : index\<close>.\<close>

definition field_at :: "('n, 'd, 'x) CsvParseOptions \<Rightarrow> header list \<Rightarrow> nat \<Rightarrow> field" where
  "field_at opts headers index =
     (if header opts
      then (if index < length headers then FieldHeader (headers ! index) else FieldUndefined)
      else FieldIndex index)"

text \<open>The property name a key stands for in \<open>parsers[field]\<close> and \<open>parsedRow[field]\<close>: the
  string itself, the string of the object \<open>Object.prototype\<close>, the source text of a
  built-in function, \<open>undefined\<close>, or the digits of an index.\<close>

fun string_of_nat :: "nat \<Rightarrow> string" where
  "string_of_nat n =
     (if n < 10 then [char_of (48 + n)]
      else string_of_nat (n div 10) @ [char_of (48 + n mod 10)])"

declare string_of_nat.simps [simp del]

fun property_key :: "('n, 'd, 'x) host \<Rightarrow> field \<Rightarrow> string" where
  "property_key h (FieldHeader (HeaderString name)) = name"
| "property_key h (FieldHeader (HeaderInherited name)) =
     (if name = ''__proto__'' then ''[object Object]'' else ''function'' @ nativeSource h name)"
| "property_key h FieldUndefined = ''undefined''"
| "property_key h (FieldIndex n) = string_of_nat n"

text \<open>The conversion of one value. With headers on, \<open>this.options.parsers[field]\<close> is the
  own parser of that key if there is one, and else the member of \<open>Object.prototype\<close> of
  that name if there is one; both are truthy and are called with the raw string. The
  member \<open>__proto__\<close> is the object \<open>Object.prototype\<close>, and calling it raises a
  \<open>TypeError\<close>. Otherwise \<open>convertType\<close> is applied. Then comes \<open>transform\<close>.\<close>

definition parse_value ::
  "('n, 'd, 'x) CsvParseOptions \<Rightarrow> ('n, 'd, 'x) host \<Rightarrow> header list \<Rightarrow> string \<Rightarrow> nat
     \<Rightarrow> ('n, 'd, 'x) thrown + ('n, 'd, 'x) jsvalue" where
  "parse_value opts h headers v index =
     (let field = field_at opts headers index; key = property_key h field in
      case (if header opts then parsers opts key else None) of
        Some parser \<Rightarrow>
          (case parser v of
             Inl e \<Rightarrow> Inl e
           | Inr parsedValue \<Rightarrow> transform opts parsedValue field)
      | None \<Rightarrow>
          if header opts \<and> inherited key then
            (case (if key = ''__proto__'' then Inl (ErrorObject (typeErrorMessage h))
                   else callInherited h key (parsers opts) v) of
               Inl e \<Rightarrow> Inl e
             | Inr parsedValue \<Rightarrow> transform opts parsedValue field)
          else transform opts (convertType opts h v) field)"

text \<open>\<open>parsedRow[field] = parsedValue\<close> on the object that is built when headers are on.
  An own property is updated. Otherwise, on a row whose prototype is still
  \<open>Object.prototype\<close>, the key \<open>__proto__\<close> runs the inherited setter, which adds no
  property and replaces the prototype if the value is an object or \<open>null\<close>, and any
  other key becomes an own property. After the prototype was replaced by \<open>null\<close> every key
  becomes an own property; after it was replaced by an object the host decides.\<close>

fun replaces_proto :: "('n, 'd, 'x) host \<Rightarrow> ('n, 'd, 'x) jsvalue \<Rightarrow> bool" where
  "replaces_proto h VNull = True"
| "replaces_proto h (VDate d) = True"
| "replaces_proto h (VOther x) = isObject h x"
| "replaces_proto h v = False"

definition assign ::
  "('n, 'd, 'x) host \<Rightarrow> (string \<rightharpoonup> ('n, 'd, 'x) jsvalue) \<Rightarrow> ('n, 'd, 'x) rowProto \<Rightarrow> string
     \<Rightarrow> ('n, 'd, 'x) jsvalue \<Rightarrow> ('n, 'd, 'x) thrown + ('n, 'd, 'x) parsedRow" where
  "assign h own proto key v =
     (if own key \<noteq> None then Inr (RowObject (own(key \<mapsto> v)) proto)
      else (case proto of
          DefaultProto \<Rightarrow>
            if key = ''__proto__''
            then Inr (RowObject own (if replaces_proto h v then ReplacedProto v else DefaultProto))
            else Inr (RowObject (own(key \<mapsto> v)) DefaultProto)
        | ReplacedProto p \<Rightarrow>
            if p = VNull then Inr (RowObject (own(key \<mapsto> v)) proto)
            else assignThrough h p own key v))"

text \<open>The store at the end of the callback: the assignment above when headers are on,
  \<open>parsedRow.push(parsedValue)\<close> on the array that is built when they are off.\<close>

fun store ::
  "('n, 'd, 'x) host \<Rightarrow> ('n, 'd, 'x) parsedRow \<Rightarrow> field \<Rightarrow> ('n, 'd, 'x) jsvalue
     \<Rightarrow> ('n, 'd, 'x) thrown + ('n, 'd, 'x) parsedRow" where
  "store h (RowObject own proto) field parsedValue =
     assign h own proto (property_key h field) parsedValue"
| "store h (RowArray vs) field parsedValue = Inr (RowArray (vs @ [parsedValue]))"

text \<open>\<open>row.forEach\<close>, from \<open>index\<close> on; a throw of the callback ends it.\<close>

fun forEach_row ::
  "('n, 'd, 'x) CsvParseOptions \<Rightarrow> ('n, 'd, 'x) host \<Rightarrow> header list \<Rightarrow> string list \<Rightarrow> nat
     \<Rightarrow> ('n, 'd, 'x) parsedRow \<Rightarrow> ('n, 'd, 'x) thrown + ('n, 'd, 'x) parsedRow" where
  "forEach_row opts h headers [] index parsedRow = Inr parsedRow"
| "forEach_row opts h headers (v # vs) index parsedRow =
     (case parse_value opts h headers v index of
        Inl e \<Rightarrow> Inl e
      | Inr parsedValue \<Rightarrow>
          (case store h parsedRow (field_at opts headers index) parsedValue of
             Inl e \<Rightarrow> Inl e
           | Inr stored \<Rightarrow> forEach_row opts h headers vs (index + 1) stored))"

text \<open>The body of the \<open>try\<close> block, up to \<open>result.data.push\<close>.\<close>

definition try_row ::
  "('n, 'd, 'x) CsvParseOptions \<Rightarrow> ('n, 'd, 'x) host \<Rightarrow> header list \<Rightarrow> string
     \<Rightarrow> ('n, 'd, 'x) thrown + ('n, 'd, 'x) parsedRow" where
  "try_row opts h headers line =
     forEach_row opts h headers (parseRow opts line) 0
       (if header opts then RowObject Map.empty DefaultProto else RowArray [])"

text \<open>The entry that the \<open>catch\<close> block pushes for the line at index \<open>i\<close>.\<close>

definition row_error :: "('n, 'd, 'x) thrown \<Rightarrow> nat \<Rightarrow> CsvError" where
  "row_error e i =
     \<lparr>error_type = ''InvalidRow'', error_code = ''row_parse_failed'',
      error_message = (case e of ErrorObject m \<Rightarrow> m | ThrownValue x \<Rightarrow> ''Failed to parse row''),
      error_row = Some (i + 1), error_index = None\<rparr>"

text \<open>The \<open>for\<close> loop over the data lines: the lines from index \<open>i\<close> on, and the result
  so far.\<close>

fun process_lines ::
  "('n, 'd, 'x) CsvParseOptions \<Rightarrow> ('n, 'd, 'x) host \<Rightarrow> header list \<Rightarrow> string list \<Rightarrow> nat
     \<Rightarrow> ('n, 'd, 'x) CsvParseResult \<Rightarrow> ('n, 'd, 'x) thrown + ('n, 'd, 'x) CsvParseResult" where
  "process_lines opts h headers [] i result = Inr result"
| "process_lines opts h headers (l # ls) i result =
     (if preview opts \<noteq> 0 \<and> preview opts \<le> int (length (data result))
      then Inr (result\<lparr>meta := (meta result)\<lparr>truncated := True\<rparr>\<rparr>)
      else (let line = trim l in
        if skipEmptyLines_on (skipEmptyLines opts) \<and> line = []
        then process_lines opts h headers ls (i + 1) result
        else if comments_on (comments opts) \<and> startsWith line (commentChar (comments opts))
        then process_lines opts h headers ls (i + 1) result
        else (case try_row opts h headers line of
            Inr parsedRow \<Rightarrow>
              process_lines opts h headers ls (i + 1)
                (result\<lparr>data := data result @ [parsedRow]\<rparr>)
          | Inl e \<Rightarrow>
              if \<not> skipInvalidLines opts then Inl e
              else process_lines opts h headers ls (i + 1)
                     (result\<lparr>errors := errors result @ [row_error e i]\<rparr>))))"

text \<open>\<open>headers.map(f)\<close> for a function that may throw.\<close>

fun map_throwing :: "('a \<Rightarrow> 'e + 'b) \<Rightarrow> 'a list \<Rightarrow> 'e + 'b list" where
  "map_throwing f [] = Inr []"
| "map_throwing f (x # xs) =
     (case f x of
        Inl e \<Rightarrow> Inl e
      | Inr y \<Rightarrow> (case map_throwing f xs of Inl e \<Rightarrow> Inl e | Inr ys \<Rightarrow> Inr (y # ys)))"

text \<open>\<open>this.options.renameHeaders[h] || h\<close>: the own entry for \<open>h\<close> if it is not the empty
  string (which is falsy); \<open>h\<close> if the own entry is empty; without an own entry, the
  member of \<open>Object.prototype\<close> named \<open>h\<close> if there is one (it is truthy), and else \<open>h\<close>.\<close>

definition rename_header :: "('n, 'd, 'x) CsvParseOptions \<Rightarrow> string \<Rightarrow> header" where
  "rename_header opts name =
     (case renameHeaders opts name of
        Some r \<Rightarrow> HeaderString (if r \<noteq> [] then r else name)
      | None \<Rightarrow> (if inherited name then HeaderInherited name else HeaderString name))"

definition empty_file_error :: CsvError where
  "empty_file_error =
     \<lparr>error_type = ''NoData'', error_code = ''empty_file'',
      error_message = ''No data found in CSV'', error_row = None, error_index = None\<rparr>"

text \<open>\<open>result.meta.rows = result.data.length; return result\<close>, after the loop.\<close>

definition set_rows ::
  "('n, 'd, 'x) thrown + ('n, 'd, 'x) CsvParseResult
     \<Rightarrow> ('n, 'd, 'x) thrown + ('n, 'd, 'x) CsvParseResult" where
  "set_rows r =
     (case r of
        Inl e \<Rightarrow> Inl e
      | Inr result \<Rightarrow> Inr (result\<lparr>meta := (meta result)\<lparr>rows := length (data result)\<rparr>\<rparr>))"

definition processData ::
  "('n, 'd, 'x) CsvParseOptions \<Rightarrow> ('n, 'd, 'x) host \<Rightarrow> string
     \<Rightarrow> ('n, 'd, 'x) thrown + ('n, 'd, 'x) CsvParseResult" where
  "processData opts h csvData =
     (let lb = (if newline opts = ''auto'' then detectNewline csvData else newline opts);
          result = \<lparr>data = [], errors = [],
                    meta = \<lparr>meta_delimiter = delimiter opts, linebreak = lb, truncated = False,
                            meta_fields = None, rows = 0\<rparr>\<rparr>;
          lines = split csvData lb
      in if header opts then
           (case lines of
              [] \<Rightarrow> Inr (result\<lparr>errors := errors result @ [empty_file_error]\<rparr>)
            | first # rest \<Rightarrow>
                (case map_throwing (transformHeader opts) (parseRow opts first) of
                   Inl e \<Rightarrow> Inl e
                 | Inr transformed \<Rightarrow>
                     (let headers = map (rename_header opts) transformed in
                      set_rows (process_lines opts h headers rest 0
                        (result\<lparr>meta := (meta result)\<lparr>meta_fields := Some headers\<rparr>\<rparr>)))))
         else set_rows (process_lines opts h [] lines 0 result))"

subsection \<open>Notions used to state the properties\<close>

text \<open>The text between consecutive occurrences of \<open>d\<close>: the part up to the first
  occurrence, then the pieces of what follows it.\<close>

function fields_between :: "'a \<Rightarrow> 'a list \<Rightarrow> 'a list list" where
  "fields_between d s =
     takeWhile (\<lambda>c. c \<noteq> d) s #
       (case dropWhile (\<lambda>c. c \<noteq> d) s of [] \<Rightarrow> [] | c # rest \<Rightarrow> fields_between d rest)"
  by pat_completeness auto
termination
proof (relation "measure (\<lambda>(d, s). length s)")
  show "wf (measure (\<lambda>(d, s). length s))"
    by simp
next
  fix d c :: 'a and s rest :: "'a list"
  assume "dropWhile (\<lambda>c. c \<noteq> d) s = c # rest"
  then have "length (c # rest) \<le> length s"
    by (metis length_dropWhile_le)
  then show "((d, rest), (d, s)) \<in> measure (\<lambda>(d, s). length s)"
    by simp
qed

declare fields_between.simps [simp del]

text \<open>A line that passes the empty-line and the comment filters of the row loop.\<close>

definition line_kept :: "('n, 'd, 'x) CsvParseOptions \<Rightarrow> string \<Rightarrow> bool" where
  "line_kept opts l =
     (\<not> (skipEmptyLines_on (skipEmptyLines opts) \<and> trim l = []) \<and>
      \<not> (comments_on (comments opts) \<and> startsWith (trim l) (commentChar (comments opts))))"

text \<open>The preview test at the head of the row loop.\<close>

definition cap_reached ::
  "('n, 'd, 'x) CsvParseOptions \<Rightarrow> ('n, 'd, 'x) CsvParseResult \<Rightarrow> bool" where
  "cap_reached opts result = (preview opts \<noteq> 0 \<and> preview opts \<le> int (length (data result)))"

text \<open>A line that the row loop turns into a record: it passes the filters and its
  conversion does not raise.\<close>

definition line_valid ::
  "('n, 'd, 'x) CsvParseOptions \<Rightarrow> ('n, 'd, 'x) host \<Rightarrow> header list \<Rightarrow> string \<Rightarrow> bool" where
  "line_valid opts h headers l =
     (line_kept opts l \<and> \<not> isl (try_row opts h headers (trim l)))"

text \<open>What one pass of the row loop does to the result when the preview test has not
  stopped it: nothing for a filtered line, a new record, a new error entry, or a throw.\<close>

definition line_step ::
  "('n, 'd, 'x) CsvParseOptions \<Rightarrow> ('n, 'd, 'x) host \<Rightarrow> header list \<Rightarrow> string \<Rightarrow> nat
     \<Rightarrow> ('n, 'd, 'x) CsvParseResult \<Rightarrow> ('n, 'd, 'x) thrown + ('n, 'd, 'x) CsvParseResult" where
  "line_step opts h headers l i result =
     (if \<not> line_kept opts l then Inr result
      else (case try_row opts h headers (trim l) of
          Inr parsedRow \<Rightarrow> Inr (result\<lparr>data := data result @ [parsedRow]\<rparr>)
        | Inl e \<Rightarrow>
            if \<not> skipInvalidLines opts then Inl e
            else Inr (result\<lparr>errors := errors result @ [row_error e i]\<rparr>)))"

text \<open>The state in which \<open>processData\<close> enters its row loop on a text: the headers, the
  data lines and the result at that point; \<^term>\<open>None\<close> if it returns or raises before the
  loop (no line at all, or a header transform that throws).\<close>

definition loop_entry ::
  "('n, 'd, 'x) CsvParseOptions \<Rightarrow> string
     \<Rightarrow> (header list \<times> string list \<times> ('n, 'd, 'x) CsvParseResult) option" where
  "loop_entry opts csvData =
     (let lb = (if newline opts = ''auto'' then detectNewline csvData else newline opts);
          result = \<lparr>data = [], errors = [],
                    meta = \<lparr>meta_delimiter = delimiter opts, linebreak = lb, truncated = False,
                            meta_fields = None, rows = 0\<rparr>\<rparr>;
          lines = split csvData lb
      in if header opts then
           (case lines of
              [] \<Rightarrow> None
            | first # rest \<Rightarrow>
                (case map_throwing (transformHeader opts) (parseRow opts first) of
                   Inl e \<Rightarrow> None
                 | Inr transformed \<Rightarrow>
                     (let headers = map (rename_header opts) transformed in
                      Some (headers, rest,
                        result\<lparr>meta := (meta result)\<lparr>meta_fields := Some headers\<rparr>\<rparr>))))
         else Some ([], lines, result))"

text \<open>The own properties of a row after the stores of the values \<open>xs\<close> under the keys of
  the fields from index \<open>k\<close> on, when every store adds or updates an own property.\<close>

fun stores ::
  "('n, 'd, 'x) CsvParseOptions \<Rightarrow> ('n, 'd, 'x) host \<Rightarrow> header list \<Rightarrow> nat
     \<Rightarrow> ('n, 'd, 'x) jsvalue list \<Rightarrow> (string \<rightharpoonup> ('n, 'd, 'x) jsvalue)
     \<Rightarrow> (string \<rightharpoonup> ('n, 'd, 'x) jsvalue)" where
  "stores opts h headers k [] own = own"
| "stores opts h headers k (x # xs) own =
     stores opts h headers (k + 1) xs (own(property_key h (field_at opts headers k) \<mapsto> x))"

text \<open>A host for closed examples. \<open>Number\<close> reads a string of decimal digits (the empty
  string as 0) and is \<open>NaN\<close>, here \<^term>\<open>None\<close>, on any other string; no string is a date.
  The methods of \<open>Object.prototype\<close> do what ECMAScript says on an object literal and a
  string argument, with \<open>VOther ()\<close> for every object; objects put in the place of a
  prototype have no accessors of their own.\<close>

fun decimal_of :: "string \<Rightarrow> nat \<Rightarrow> nat option" where
  "decimal_of [] acc = Some acc"
| "decimal_of (c # cs) acc =
     (if 48 \<le> (of_char c :: nat) \<and> (of_char c :: nat) \<le> 57
      then decimal_of cs (10 * acc + (of_char c - 48))
      else None)"

definition sample_callInherited ::
  "string \<Rightarrow> (string \<rightharpoonup> (string \<Rightarrow> (nat option, unit, unit) thrown + (nat option, unit, unit) jsvalue))
     \<Rightarrow> string \<Rightarrow> (nat option, unit, unit) thrown + (nat option, unit, unit) jsvalue" where
  "sample_callInherited name obj v =
     (if name = ''toString'' \<or> name = ''toLocaleString'' then Inr (VString ''[object Object]'')
      else if name = ''hasOwnProperty'' \<or> name = ''propertyIsEnumerable''
      then Inr (VBool (obj v \<noteq> None))
      else if name = ''isPrototypeOf'' then Inr (VBool False)
      else if name = ''__defineGetter__'' \<or> name = ''__defineSetter__''
      then Inl (ErrorObject (''Object.prototype.'' @ name @ '': Expecting function''))
      else if name = ''__lookupGetter__'' \<or> name = ''__lookupSetter__''
      then Inr (if v = ''__proto__'' then VOther () else VUndefined)
      else Inr (VOther ()))"

definition sample_host :: "(nat option, unit, unit) host" where
  "sample_host =
     \<lparr>Number = (\<lambda>s. decimal_of s 0), isNaN = (\<lambda>n. n = None), Date = (\<lambda>s. ()),
      getTime = (\<lambda>d. None),
      nativeSource =
        (\<lambda>name. '' '' @ (if name = ''constructor'' then ''Object'' else name)
           @ ''() { [native code] }''),
      typeErrorMessage = ''this.options.parsers[field] is not a function'',
      callInherited = sample_callInherited,
      isObject = (\<lambda>x. True),
      assignThrough =
        (\<lambda>p own key v.
           if key = ''__proto__''
           then Inr (RowObject own
                  (ReplacedProto (if v = VNull \<or> v = VDate () \<or> v = VOther () then v else p)))
           else Inr (RowObject (own(key \<mapsto> v)) (ReplacedProto p)))\<rparr>"

section \<open>Properties\<close>

subsection \<open>Evaluation of the tokenizer and of the parse on given inputs\<close>

lemmas parseRow_eval =
  parseRow_def default_options_def parseRow_loop.simps is_char_def charAt_def slice_0_m1_def
  Let_def

lemma not_inherited_empty: "\<not> inherited []"
  by (simp add: inherited_def inherited_names_def)

text \<open>
  Claim C1. The empty text, parsed with the default options (headers on, line break
  \<open>auto\<close>), is expected to give no row and exactly one error with code \<open>empty_file\<close>. In
  the code \<open>''.split('\n')\<close> is the one-element array \<open>['']\<close>, so the test
  \<open>lines.length === 0\<close> fails: the empty line is taken as the header row, the field list is
  \<open>['']\<close> and the error list stays empty.
\<close>

theorem processData_empty_text_default:
  "processData default_options h [] =
     Inr \<lparr>data = [], errors = [],
          meta = \<lparr>meta_delimiter = '','', linebreak = [CHR 0x0A], truncated = False,
                  meta_fields = Some [HeaderString []], rows = 0\<rparr>\<rparr>"
  by (simp add: processData_def default_options_def detectNewline_def split_def parseRow_def
      parseRow_loop.simps rename_header_def not_inherited_empty set_rows_def Let_def)

text \<open>
  Claim C2. The line is the quoted field \<open>He said ""Hello"" to me\<close> between two quote
  characters, with the default quote and escape characters. The first quote of each
  doubled pair toggles \<open>isQuoted\<close> and adds nothing to the buffer; the second one finds the
  escape character before it and replaces the last character of the buffer, which is the
  space before the pair, respectively the \<open>o\<close> of \<open>Hello\<close>. The field returned is not the
  expected \<open>He said "Hello" to me\<close>.
\<close>

theorem parseRow_doubled_quotes_lose_characters:
  "parseRow default_options
     ([CHR 0x22] @ ''He said '' @ [CHR 0x22, CHR 0x22] @ ''Hello'' @ [CHR 0x22, CHR 0x22]
        @ '' to me'' @ [CHR 0x22])
     = [''He said'' @ [CHR 0x22] @ ''Hell'' @ [CHR 0x22] @ '' to me'']
   \<and> parseRow default_options
     ([CHR 0x22] @ ''He said '' @ [CHR 0x22, CHR 0x22] @ ''Hello'' @ [CHR 0x22, CHR 0x22]
        @ '' to me'' @ [CHR 0x22])
     \<noteq> [''He said '' @ [CHR 0x22] @ ''Hello'' @ [CHR 0x22] @ '' to me'']"
  by (simp add: parseRow_eval)

text \<open>
  Claim C7. The quoted field \<open>Software Engineer, Senior\<close> alone on its line comes back as
  its literal content. When the same quoted field is followed by the delimiter and a second
  field \<open>30\<close>, the closing quote and the delimiter are skipped but the buffer is not
  pushed: the text of the second field is appended to the first, and the line gives one
  field instead of two.
\<close>

theorem parseRow_quoted_field_then_delimiter:
  "parseRow default_options ([CHR 0x22] @ ''Software Engineer, Senior'' @ [CHR 0x22])
     = [''Software Engineer, Senior'']
   \<and> parseRow default_options
       ([CHR 0x22] @ ''Software Engineer, Senior'' @ [CHR 0x22] @ '',30'')
     = [''Software Engineer, Senior30'']"
  by (simp add: parseRow_eval)

subsection \<open>The tokenizer on lines without quote characters\<close>

lemma fields_between_Nil: "fields_between d [] = [[]]"
  by (simp add: fields_between.simps)

lemma fields_between_nonempty: "fields_between d s \<noteq> []"
  by (subst fields_between.simps) simp

lemma hd_fields_between: "hd (fields_between d s) = takeWhile (\<lambda>c. c \<noteq> d) s"
  by (subst fields_between.simps) simp

lemma tl_fields_between:
  "tl (fields_between d s) =
     (case dropWhile (\<lambda>c. c \<noteq> d) s of [] \<Rightarrow> [] | c # rest \<Rightarrow> fields_between d rest)"
  by (subst fields_between.simps) simp

lemma fields_between_Cons:
  "fields_between d (c # cs) =
     (if c = d then [] # fields_between d cs
      else (c # hd (fields_between d cs)) # tl (fields_between d cs))"
  by (subst fields_between.simps) (simp add: hd_fields_between tl_fields_between)

lemma length_fields_between: "length (fields_between d s) = count_list s d + 1"
  by (induction s) (simp_all add: fields_between_Nil fields_between_Cons fields_between_nonempty)

lemma fields_between_free: "f \<in> set (fields_between d s) \<Longrightarrow> d \<notin> set f"
proof (induction s arbitrary: f)
  case Nil
  then show ?case by (simp add: fields_between_Nil)
next
  case (Cons c cs)
  have split: "fields_between d cs = hd (fields_between d cs) # tl (fields_between d cs)"
    by (simp add: fields_between_nonempty)
  show ?case
  proof (cases "c = d")
    case True
    with Cons show ?thesis by (auto simp: fields_between_Cons)
  next
    case False
    with Cons.prems have "f = c # hd (fields_between d cs) \<or> f \<in> set (tl (fields_between d cs))"
      by (simp add: fields_between_Cons)
    moreover have "hd (fields_between d cs) \<in> set (fields_between d cs)"
      by (simp add: fields_between_nonempty)
    moreover have "set (tl (fields_between d cs)) \<subseteq> set (fields_between d cs)"
      by (metis split set_subset_Cons)
    ultimately show ?thesis
      using Cons.IH False by auto
  qed
qed

lemma fields_between_join: "concat (map ((#) d) (fields_between d s)) = d # s"
proof (induction s)
  case Nil
  show ?case by (simp add: fields_between_Nil)
next
  case (Cons c cs)
  have split: "fields_between d cs = hd (fields_between d cs) # tl (fields_between d cs)"
    by (simp add: fields_between_nonempty)
  have "concat (map ((#) d) (hd (fields_between d cs) # tl (fields_between d cs))) = d # cs"
    using Cons.IH split by simp
  then show ?case
    by (simp add: fields_between_Cons Cons.IH)
qed

lemma parseRow_loop_unquoted:
  assumes nq: "\<forall>c\<in>set row. [c] \<noteq> quote"
  shows "k = length row - i \<Longrightarrow> i \<le> length row \<Longrightarrow>
     parseRow_loop [d] quote esc row vals cur False i =
       vals @ (cur @ hd (fields_between d (drop i row))) # tl (fields_between d (drop i row))"
proof (induction k arbitrary: i vals cur)
  case 0
  then show ?case
    by (simp add: parseRow_loop.simps fields_between_Nil)
next
  case (Suc k)
  then have lt: "i < length row"
    by simp
  then have dr: "drop i row = row ! i # drop (Suc i) row"
    by (simp add: Cons_nth_drop_Suc)
  from lt nq have q: "[row ! i] \<noteq> quote"
    by simp
  have ih: "\<And>vals cur. parseRow_loop [d] quote esc row vals cur False (Suc i) =
       vals @ (cur @ hd (fields_between d (drop (Suc i) row)))
         # tl (fields_between d (drop (Suc i) row))"
    using Suc.IH [of "Suc i"] Suc.prems lt by simp
  show ?case
    by (subst parseRow_loop.simps)
       (simp add: lt q dr fields_between_Cons ih Let_def fields_between_nonempty)
qed

lemma parseRow_loop_nonempty: "parseRow_loop delim quote esc row vals cur q i \<noteq> []"
  by (induction delim quote esc row vals cur q i rule: parseRow_loop.induct)
     (subst parseRow_loop.simps, auto simp: Let_def)

text \<open>
  Claim C8. On a line without quote characters, with a one-character delimiter \<open>d\<close>, the
  tokenizer returns the pieces of the line between consecutive occurrences of \<open>d\<close>: one more
  field than there are delimiters, no field contains the delimiter, and the fields joined
  by the delimiter give the line back. The empty line gives one empty field.
\<close>

theorem parseRow_unquoted_fields:
  assumes "delimiter opts = [d]" and "\<forall>c\<in>set row. [c] \<noteq> quoteChar opts"
  shows "parseRow opts row = fields_between d row
     \<and> length (parseRow opts row) = count_list row d + 1
     \<and> (\<forall>f\<in>set (parseRow opts row). d \<notin> set f)
     \<and> concat (map ((#) d) (parseRow opts row)) = d # row
     \<and> parseRow opts [] = [[]]"
proof -
  have "parseRow opts row = fields_between d row"
    using parseRow_loop_unquoted [OF assms(2), of "length row" 0 d "escapeChar opts" "[]" "[]"]
    by (simp add: parseRow_def assms(1) fields_between_nonempty)
  moreover have "parseRow opts [] = [[]]"
    by (simp add: parseRow_def parseRow_loop.simps)
  ultimately show ?thesis
    by (simp add: length_fields_between fields_between_join fields_between_free)
qed

theorem parseRow_unquoted_fields_witness:
  "delimiter (default_options :: (nat option, unit, unit) CsvParseOptions) = '',''
   \<and> CHR 0x22 \<notin> set ''John,,New York''
   \<and> parseRow (default_options :: (nat option, unit, unit) CsvParseOptions) ''John,,New York''
       = [''John'', [], ''New York'']
   \<and> count_list ''John,,New York'' CHR '','' + 1 = 3"
  using parseRow_unquoted_fields
    [of "default_options :: (nat option, unit, unit) CsvParseOptions" "CHR '',''"
        "''John,,New York''"]
  by (simp add: default_options_def fields_between.simps)

subsection \<open>Type conversion\<close>

text \<open>
  Claim C6. With dynamic typing off, \<open>convertType\<close> returns the string unchanged. With
  dynamic typing on, the first rule that applies decides, in this order: the empty string
  is \<open>null\<close>; \<open>true\<close> and \<open>false\<close> are the booleans; \<open>null\<close> is \<open>null\<close>; \<open>undefined\<close> is
  \<open>undefined\<close>; a string that the host's \<open>Number\<close> does not map to \<open>NaN\<close> is that number;
  a string that the host's \<open>Date\<close> gives a valid time is that date; any other string is
  returned unchanged. In particular \<open>true\<close> gives the boolean, the empty string \<open>null\<close>,
  and \<open>30\<close> the number that \<open>Number\<close> reads from it.
\<close>

theorem convertType_priority:
  "(\<not> dynamicTyping_on (dynamicTyping opts) \<longrightarrow> convertType opts h v = VString v)
   \<and> (dynamicTyping_on (dynamicTyping opts) \<longrightarrow>
        (v = [] \<longrightarrow> convertType opts h v = VNull)
      \<and> (v = ''true'' \<longrightarrow> convertType opts h v = VBool True)
      \<and> (v = ''false'' \<longrightarrow> convertType opts h v = VBool False)
      \<and> (v = ''null'' \<longrightarrow> convertType opts h v = VNull)
      \<and> (v = ''undefined'' \<longrightarrow> convertType opts h v = VUndefined)
      \<and> (v \<notin> {[], ''true'', ''false'', ''null'', ''undefined''} \<longrightarrow>
            (\<not> isNaN h (Number h v) \<longrightarrow> convertType opts h v = VNumber (Number h v))
          \<and> (isNaN h (Number h v) \<and> \<not> isNaN h (getTime h (Date h v)) \<longrightarrow>
                convertType opts h v = VDate (Date h v))
          \<and> (isNaN h (Number h v) \<and> isNaN h (getTime h (Date h v)) \<longrightarrow>
                convertType opts h v = VString v))
      \<and> (\<not> isNaN h (Number h ''30'') \<longrightarrow>
            convertType opts h ''30'' = VNumber (Number h ''30'')))"
  by (simp add: convertType_def Let_def)

theorem convertType_priority_witness:
  "convertType (default_options\<lparr>dynamicTyping := DynTypingBool True\<rparr>) sample_host ''30''
     = (VNumber (Some 30) :: (nat option, unit, unit) jsvalue)
   \<and> convertType (default_options\<lparr>dynamicTyping := DynTypingBool True\<rparr>) sample_host ''true''
     = (VBool True :: (nat option, unit, unit) jsvalue)
   \<and> convertType (default_options\<lparr>dynamicTyping := DynTypingBool True\<rparr>) sample_host []
     = (VNull :: (nat option, unit, unit) jsvalue)
   \<and> convertType (default_options\<lparr>dynamicTyping := DynTypingBool True\<rparr>) sample_host ''John''
     = (VString ''John'' :: (nat option, unit, unit) jsvalue)
   \<and> convertType default_options sample_host ''30''
     = (VString ''30'' :: (nat option, unit, unit) jsvalue)"
  using
    convertType_priority
      [of "default_options\<lparr>dynamicTyping := DynTypingBool True\<rparr>
             :: (nat option, unit, unit) CsvParseOptions" sample_host "''30''"]
    convertType_priority
      [of "default_options\<lparr>dynamicTyping := DynTypingBool True\<rparr>
             :: (nat option, unit, unit) CsvParseOptions" sample_host "''true''"]
    convertType_priority
      [of "default_options\<lparr>dynamicTyping := DynTypingBool True\<rparr>
             :: (nat option, unit, unit) CsvParseOptions" sample_host "[]"]
    convertType_priority
      [of "default_options\<lparr>dynamicTyping := DynTypingBool True\<rparr>
             :: (nat option, unit, unit) CsvParseOptions" sample_host "''John''"]
    convertType_priority
      [of "default_options :: (nat option, unit, unit) CsvParseOptions" sample_host "''30''"]
  by (simp add: default_options_def sample_host_def)

subsection \<open>Inherited names\<close>

lemma inherited_proto: "inherited ''__proto__''"
  by (simp add: inherited_def inherited_names_def)

lemma not_inherited_undefined: "\<not> inherited ''undefined''"
  by (simp add: inherited_def inherited_names_def)

lemma not_inherited_function: "\<not> inherited (''function'' @ s)"
  by (simp add: inherited_def inherited_names_def)

lemma not_inherited_object_Object: "\<not> inherited ''[object Object]''"
  by (simp add: inherited_def inherited_names_def)

subsection \<open>The parse and its row loop\<close>

lemma processData_loop_entry:
  "loop_entry opts csvData = Some (hs, dl, r0) \<Longrightarrow>
     processData opts h csvData = set_rows (process_lines opts h hs dl 0 r0)"
  unfolding loop_entry_def processData_def Let_def
  by (auto split: if_splits list.splits sum.splits)

lemma loop_entry_initial:
  "loop_entry opts csvData = Some (hs, dl, r0) \<Longrightarrow>
     data r0 = [] \<and> errors r0 = [] \<and> \<not> truncated (meta r0)"
  unfolding loop_entry_def Let_def
  by (auto split: if_splits list.splits sum.splits)

lemma process_lines_cut:
  "cap_reached opts r \<Longrightarrow>
     process_lines opts h hs (l # ls) i r = Inr (r\<lparr>meta := (meta r)\<lparr>truncated := True\<rparr>\<rparr>)"
  by (simp add: cap_reached_def)

lemma process_lines_step:
  "\<not> cap_reached opts r \<Longrightarrow>
     process_lines opts h hs (l # ls) i r =
       (case line_step opts h hs l i r of
          Inl e \<Rightarrow> Inl e
        | Inr r2 \<Rightarrow> process_lines opts h hs ls (i + 1) r2)"
  by (auto simp: cap_reached_def line_step_def line_kept_def Let_def split: sum.splits)

declare process_lines.simps(2) [simp del]

lemma line_step_truncated:
  "line_step opts h hs l i r = Inr r2 \<Longrightarrow> truncated (meta r2) = truncated (meta r)"
  by (auto simp: line_step_def split: if_splits sum.splits)

lemma process_lines_append:
  "\<not> truncated (meta r) \<Longrightarrow>
     process_lines opts h hs (pre @ post) i r =
       (case process_lines opts h hs pre i r of
          Inl e \<Rightarrow> Inl e
        | Inr r' \<Rightarrow>
            if truncated (meta r') then Inr r'
            else process_lines opts h hs post (i + length pre) r')"
proof (induction pre arbitrary: i r)
  case Nil
  then show ?case by simp
next
  case (Cons l pre)
  show ?case
  proof (cases "cap_reached opts r")
    case True
    then show ?thesis
      using process_lines_cut [OF True, of h hs l "pre @ post" i]
        process_lines_cut [OF True, of h hs l pre i]
      by simp
  next
    case False
    show ?thesis
    proof (cases "line_step opts h hs l i r")
      case (Inl e)
      then show ?thesis
        using process_lines_step [OF False, of h hs l "pre @ post" i]
          process_lines_step [OF False, of h hs l pre i]
        by simp
    next
      case (Inr r2)
      then have "\<not> truncated (meta r2)"
        using line_step_truncated Cons.prems by blast
      have idx: "i + length (l # pre) = i + 1 + length pre"
        by simp
      from \<open>\<not> truncated (meta r2)\<close> show ?thesis
        unfolding idx
        using process_lines_step [OF False, of h hs l "pre @ post" i]
          process_lines_step [OF False, of h hs l pre i] Inr Cons.IH [of r2 "i + 1"]
        by simp
    qed
  qed
qed

lemma truncated_iff:
  "\<not> truncated (meta r) \<Longrightarrow> process_lines opts h hs ls i r = Inr r' \<Longrightarrow>
     truncated (meta r') \<longleftrightarrow>
       (\<exists>k<length ls. \<exists>rk. process_lines opts h hs (take k ls) i r = Inr rk \<and> cap_reached opts rk)"
proof (induction ls arbitrary: i r)
  case Nil
  then show ?case by simp
next
  case (Cons l ls)
  show ?case
  proof (cases "cap_reached opts r")
    case True
    then have "truncated (meta r')"
      using Cons.prems(2) process_lines_cut [OF True, of h hs l ls i] by auto
    moreover have "process_lines opts h hs (take 0 (l # ls)) i r = Inr r"
      by simp
    ultimately show ?thesis
      using True by (metis length_greater_0_conv list.distinct(1))
  next
    case False
    have st: "\<And>xs. process_lines opts h hs (l # xs) i r =
       (case line_step opts h hs l i r of
          Inl e \<Rightarrow> Inl e
        | Inr r2 \<Rightarrow> process_lines opts h hs xs (i + 1) r2)"
      by (rule process_lines_step [OF False])
    from Cons.prems(2) obtain r2 where r2: "line_step opts h hs l i r = Inr r2"
      and rest: "process_lines opts h hs ls (i + 1) r2 = Inr r'"
      by (auto simp: st split: sum.splits)
    have nt: "\<not> truncated (meta r2)"
      using line_step_truncated [OF r2] Cons.prems(1) by simp
    have ih: "truncated (meta r') \<longleftrightarrow>
       (\<exists>k<length ls. \<exists>rk. process_lines opts h hs (take k ls) (i + 1) r2 = Inr rk \<and> cap_reached opts rk)"
      by (rule Cons.IH [OF nt rest])
    have "(\<exists>k<length (l # ls). \<exists>rk. process_lines opts h hs (take k (l # ls)) i r = Inr rk \<and> cap_reached opts rk)
       \<longleftrightarrow> (\<exists>k<length ls. \<exists>rk. process_lines opts h hs (take k ls) (i + 1) r2 = Inr rk \<and> cap_reached opts rk)"
      (is "?L \<longleftrightarrow> ?R")
    proof
      assume ?L
      then obtain k rk where k: "k < length (l # ls)"
        and rk: "process_lines opts h hs (take k (l # ls)) i r = Inr rk" "cap_reached opts rk"
        by blast
      show ?R
      proof (cases k)
        case 0
        with rk False show ?thesis by simp
      next
        case (Suc k')
        with rk have "process_lines opts h hs (take k' ls) (i + 1) r2 = Inr rk"
          by (simp add: st r2)
        with k Suc rk(2) show ?thesis by auto
      qed
    next
      assume ?R
      then obtain k rk where k: "k < length ls"
        and rk: "process_lines opts h hs (take k ls) (i + 1) r2 = Inr rk" "cap_reached opts rk"
        by blast
      have "process_lines opts h hs (take (Suc k) (l # ls)) i r = Inr rk"
        using rk(1) by (simp add: st r2)
      with k rk(2) show ?L
        by (metis Suc_less_eq length_Cons)
    qed
    with ih show ?thesis by simp
  qed
qed

lemma valid_lines:
  "\<forall>l\<in>set ls. line_valid opts h hs l \<Longrightarrow>
   \<exists>r'. process_lines opts h hs ls i r = Inr r' \<and> errors r' = errors r \<and>
     (if preview opts \<noteq> 0 \<and> ls \<noteq> [] \<and> preview opts < int (length (data r) + length ls)
      then truncated (meta r') \<and> int (length (data r')) = max (preview opts) (int (length (data r)))
      else length (data r') = length (data r) + length ls \<and>
           truncated (meta r') = truncated (meta r))"
proof (induction ls arbitrary: i r)
  case Nil
  show ?case by simp
next
  case (Cons l ls)
  show ?case
  proof (cases "cap_reached opts r")
    case True
    show ?thesis
      using True process_lines_cut [OF True, of h hs l ls i]
      by (auto simp: cap_reached_def)
  next
    case False
    from Cons.prems obtain x where x: "try_row opts h hs (trim l) = Inr x" and kept: "line_kept opts l"
      by (cases "try_row opts h hs (trim l)") (auto simp: line_valid_def)
    define r2 where "r2 = r\<lparr>data := data r @ [x]\<rparr>"
    have st: "process_lines opts h hs (l # ls) i r = process_lines opts h hs ls (i + 1) r2"
      using process_lines_step [OF False, of h hs l ls i] x kept
      by (simp add: line_step_def r2_def)
    have r2: "length (data r2) = length (data r) + 1" "truncated (meta r2) = truncated (meta r)"
      "errors r2 = errors r"
      by (simp_all add: r2_def)
    from Cons.prems have "\<forall>l\<in>set ls. line_valid opts h hs l" by simp
    from Cons.IH [OF this, of "i + 1" r2]
    obtain r' where r': "process_lines opts h hs ls (i + 1) r2 = Inr r'"
      and er: "errors r' = errors r2"
      and p: "(if preview opts \<noteq> 0 \<and> ls \<noteq> [] \<and> preview opts < int (length (data r2) + length ls)
      then truncated (meta r') \<and> int (length (data r')) = max (preview opts) (int (length (data r2)))
      else length (data r') = length (data r2) + length ls \<and>
           truncated (meta r') = truncated (meta r2))"
      by blast
    have nc: "preview opts = 0 \<or> int (length (data r)) < preview opts"
      using False by (auto simp: cap_reached_def)
    show ?thesis
      using st r' er p r2 nc by (cases "ls = []") (auto split: if_splits)
  qed
qed




lemma set_rows_Inr:
  "set_rows (Inr r) = Inr (r\<lparr>meta := (meta r)\<lparr>rows := length (data r)\<rparr>\<rparr>)"
  by (simp add: set_rows_def)

lemma set_rows_Inl: "set_rows (Inl e) = Inl e"
  by (simp add: set_rows_def)

lemma process_lines_failing_line:
  assumes "\<not> truncated (meta r)"
    and "process_lines opts h hs pre 0 r = Inr r'" and "\<not> truncated (meta r')"
    and "\<not> cap_reached opts r'"
    and "line_kept opts l" and "try_row opts h hs (trim l) = Inl e"
  shows "process_lines opts h hs (pre @ l # post) 0 r =
     (if skipInvalidLines opts
      then process_lines opts h hs post (length pre + 1)
             (r'\<lparr>errors := errors r' @ [row_error e (length pre)]\<rparr>)
      else Inl e)"
proof -
  have "process_lines opts h hs (pre @ l # post) 0 r
      = process_lines opts h hs (l # post) (length pre) r'"
    using process_lines_append [OF assms(1), of opts h hs pre "l # post" 0] assms(2,3) by simp
  also have "\<dots> = (case line_step opts h hs l (length pre) r' of
          Inl e \<Rightarrow> Inl e
        | Inr r2 \<Rightarrow> process_lines opts h hs post (length pre + 1) r2)"
    by (rule process_lines_step [OF assms(4)])
  finally show ?thesis
    using assms(5,6) by (simp add: line_step_def)
qed

lemmas loop_eval = line_valid_def line_kept_def try_row_def parse_value_def field_at_def
  convertType_def trim_def isWhiteSpace_def startsWith_def assign_def inherited_def
  inherited_names_def

lemmas entry_eval = loop_entry_def detectNewline_def split_def startsWith_def rename_header_def
  inherited_def inherited_names_def

text \<open>
  Claim C3. Let the parse of a text enter its row loop, and take a data line \<open>l\<close> of the
  text that passes the filters and whose conversion raises \<open>e\<close>; \<open>pre\<close> are the data lines
  before it and \<open>post\<close> those after it. If the loop reaches \<open>l\<close> (it processed \<open>pre\<close>
  without meeting the preview cap), then with \<open>skipInvalidLines\<close> on the parse goes on with
  \<open>post\<close>, on a result with the same rows and exactly one more error: code
  \<open>row_parse_failed\<close>, the message of \<open>e\<close> when \<open>e\<close> is an \<open>Error\<close> (a fixed text
  otherwise), and the 1-based number of \<open>l\<close> among the data lines; with \<open>skipInvalidLines\<close>
  off the parse raises \<open>e\<close> and returns no result. In particular, when all other data
  lines give a row and there is no preview, the parse with \<open>skipInvalidLines\<close> on returns as
  many rows as there are other lines (3 for three valid rows) and exactly that one error.
\<close>

theorem skipInvalidLines_row_failure:
  assumes "loop_entry opts csvData = Some (hs, pre @ l # post, r0)"
    and "line_kept opts l" and "try_row opts h hs (trim l) = Inl e"
  shows "(\<forall>r'. process_lines opts h hs pre 0 r0 = Inr r' \<and> \<not> truncated (meta r')
              \<and> \<not> (preview opts \<noteq> 0 \<and> preview opts \<le> int (length (data r'))) \<longrightarrow>
            (skipInvalidLines opts \<longrightarrow>
               processData opts h csvData =
                 set_rows (process_lines opts h hs post (length pre + 1)
                   (r'\<lparr>errors := errors r' @
                      [\<lparr>error_type = ''InvalidRow'', error_code = ''row_parse_failed'',
                        error_message =
                          (case e of ErrorObject m \<Rightarrow> m
                           | ThrownValue x \<Rightarrow> ''Failed to parse row''),
                        error_row = Some (length pre + 1), error_index = None\<rparr>]\<rparr>)))
          \<and> (\<not> skipInvalidLines opts \<longrightarrow> processData opts h csvData = Inl e))
     \<and> ((\<forall>x\<in>set pre \<union> set post. line_valid opts h hs x) \<and> preview opts = 0 \<longrightarrow>
            (skipInvalidLines opts \<longrightarrow>
               (\<exists>r. processData opts h csvData = Inr r
                  \<and> length (data r) = length pre + length post
                  \<and> rows (meta r) = length pre + length post
                  \<and> errors r =
                      [\<lparr>error_type = ''InvalidRow'', error_code = ''row_parse_failed'',
                        error_message =
                          (case e of ErrorObject m \<Rightarrow> m
                           | ThrownValue x \<Rightarrow> ''Failed to parse row''),
                        error_row = Some (length pre + 1), error_index = None\<rparr>]))
          \<and> (\<not> skipInvalidLines opts \<longrightarrow> processData opts h csvData = Inl e))"
proof -
  let ?err = "\<lparr>error_type = ''InvalidRow'', error_code = ''row_parse_failed'',
                        error_message =
                          (case e of ErrorObject m \<Rightarrow> m
                           | ThrownValue x \<Rightarrow> ''Failed to parse row''),
                        error_row = Some (length pre + 1), error_index = None\<rparr>"
  have err: "row_error e (length pre) = ?err"
    by (simp add: row_error_def)
  have pd: "processData opts h csvData = set_rows (process_lines opts h hs (pre @ l # post) 0 r0)"
    by (rule processData_loop_entry [OF assms(1)])
  have init: "data r0 = []" "errors r0 = []" "\<not> truncated (meta r0)"
    using loop_entry_initial [OF assms(1)] by simp_all
  have step: "process_lines opts h hs (pre @ l # post) 0 r0 =
     (if skipInvalidLines opts
      then process_lines opts h hs post (length pre + 1) (r'\<lparr>errors := errors r' @ [?err]\<rparr>)
      else Inl e)"
    if "process_lines opts h hs pre 0 r0 = Inr r'" "\<not> truncated (meta r')"
      "\<not> (preview opts \<noteq> 0 \<and> preview opts \<le> int (length (data r')))" for r'
  proof -
    have "\<not> cap_reached opts r'"
      using that(3) by (simp add: cap_reached_def)
    from process_lines_failing_line [OF init(3) that(1,2) this assms(2,3), of post]
    show ?thesis
      by (simp add: err)
  qed
  have 1: "\<forall>r'. process_lines opts h hs pre 0 r0 = Inr r' \<and> \<not> truncated (meta r')
              \<and> \<not> (preview opts \<noteq> 0 \<and> preview opts \<le> int (length (data r'))) \<longrightarrow>
            (skipInvalidLines opts \<longrightarrow>
               processData opts h csvData =
                 set_rows (process_lines opts h hs post (length pre + 1)
                   (r'\<lparr>errors := errors r' @ [?err]\<rparr>)))
          \<and> (\<not> skipInvalidLines opts \<longrightarrow> processData opts h csvData = Inl e)"
    using step by (auto simp: pd set_rows_Inl)
  have 2: "(\<forall>x\<in>set pre \<union> set post. line_valid opts h hs x) \<and> preview opts = 0 \<longrightarrow>
            (skipInvalidLines opts \<longrightarrow>
               (\<exists>r. processData opts h csvData = Inr r
                  \<and> length (data r) = length pre + length post
                  \<and> rows (meta r) = length pre + length post
                  \<and> errors r = [?err]))
          \<and> (\<not> skipInvalidLines opts \<longrightarrow> processData opts h csvData = Inl e)"
  proof (intro impI, elim conjE)
    assume v: "\<forall>x\<in>set pre \<union> set post. line_valid opts h hs x" and p0: "preview opts = 0"
    from v have vpre: "\<forall>x\<in>set pre. line_valid opts h hs x"
      and vpost: "\<forall>x\<in>set post. line_valid opts h hs x"
      by auto
    from valid_lines [OF vpre, of 0 r0] p0 init
    obtain r' where r': "process_lines opts h hs pre 0 r0 = Inr r'" "errors r' = []"
      "length (data r') = length pre" "\<not> truncated (meta r')"
      by auto
    have nc: "\<not> (preview opts \<noteq> 0 \<and> preview opts \<le> int (length (data r')))"
      using p0 by simp
    let ?r2 = "r'\<lparr>errors := errors r' @ [?err]\<rparr>"
    from valid_lines [OF vpost, of "length pre + 1" ?r2] p0 r'
    obtain r3 where r3: "process_lines opts h hs post (length pre + 1) ?r2 = Inr r3"
      "errors r3 = [?err]" "length (data r3) = length pre + length post"
      by auto
    show "(skipInvalidLines opts \<longrightarrow>
               (\<exists>r. processData opts h csvData = Inr r
                  \<and> length (data r) = length pre + length post
                  \<and> rows (meta r) = length pre + length post
                  \<and> errors r = [?err]))
          \<and> (\<not> skipInvalidLines opts \<longrightarrow> processData opts h csvData = Inl e)"
      using step [OF r'(1,4) nc] r3 by (auto simp: pd set_rows_Inl set_rows_Inr)
  qed
  from 1 2 show ?thesis
    by blast
qed


theorem skipInvalidLines_row_failure_witness:
  "(\<exists>r. processData
        (default_options\<lparr>skipInvalidLines := True,
           parsers := [''age'' \<mapsto> (\<lambda>v. if v = ''x'' then Inl (ErrorObject ''bad age'')
                                      else Inr (VString v))]\<rparr>)
        sample_host
        (''name,age'' @ [CHR 0x0A] @ ''John,30'' @ [CHR 0x0A] @ ''Jane,25'' @ [CHR 0x0A]
           @ ''Bob,x'' @ [CHR 0x0A] @ ''Amy,41'') = Inr r
      \<and> length (data r) = 3 \<and> rows (meta r) = 3
      \<and> errors r =
          [\<lparr>error_type = ''InvalidRow'', error_code = ''row_parse_failed'',
            error_message = ''bad age'', error_row = Some 3, error_index = None\<rparr>])
   \<and> processData
        (default_options\<lparr>
           parsers := [''age'' \<mapsto> (\<lambda>v. if v = ''x'' then Inl (ErrorObject ''bad age'')
                                      else Inr (VString v))]\<rparr>)
        sample_host
        (''name,age'' @ [CHR 0x0A] @ ''John,30'' @ [CHR 0x0A] @ ''Jane,25'' @ [CHR 0x0A]
           @ ''Bob,x'' @ [CHR 0x0A] @ ''Amy,41'') = Inl (ErrorObject ''bad age'')"
proof -
  let ?p = "[''age'' \<mapsto> (\<lambda>v. if v = ''x'' then Inl (ErrorObject ''bad age'')
                                      else Inr (VString v))]
     :: string \<rightharpoonup> (string \<Rightarrow> (nat option, unit, unit) thrown + (nat option, unit, unit) jsvalue)"
  let ?on = "default_options\<lparr>skipInvalidLines := True, parsers := ?p\<rparr>"
  let ?off = "default_options\<lparr>parsers := ?p\<rparr>"
  let ?text = "''name,age'' @ [CHR 0x0A] @ ''John,30'' @ [CHR 0x0A] @ ''Jane,25'' @ [CHR 0x0A]
           @ ''Bob,x'' @ [CHR 0x0A] @ ''Amy,41''"
  let ?hs = "[HeaderString ''name'', HeaderString ''age'']"
  let ?r0 = "\<lparr>data = [], errors = [],
          meta = \<lparr>meta_delimiter = '','', linebreak = [CHR 0x0A], truncated = False,
                  meta_fields = Some ?hs, rows = 0\<rparr>\<rparr>
         :: (nat option, unit, unit) CsvParseResult"
  have e_on: "loop_entry ?on ?text = Some (?hs, [''John,30'', ''Jane,25''] @ ''Bob,x'' # [''Amy,41''], ?r0)"
    by (simp add: entry_eval parseRow_eval)
  have e_off: "loop_entry ?off ?text = Some (?hs, [''John,30'', ''Jane,25''] @ ''Bob,x'' # [''Amy,41''], ?r0)"
    by (simp add: entry_eval parseRow_eval)
  have kept_on: "line_kept ?on ''Bob,x''" and kept_off: "line_kept ?off ''Bob,x''"
    by (simp_all add: default_options_def loop_eval)
  have raise_on: "try_row ?on sample_host ?hs (trim ''Bob,x'') = Inl (ErrorObject ''bad age'')"
    by (simp add: loop_eval parseRow_eval)
  have raise_off: "try_row ?off sample_host ?hs (trim ''Bob,x'') = Inl (ErrorObject ''bad age'')"
    by (simp add: loop_eval parseRow_eval)
  have v_on: "(\<forall>x\<in>set [''John,30'', ''Jane,25''] \<union> set [''Amy,41''].
         line_valid ?on sample_host ?hs x) \<and> preview ?on = 0"
    by (simp add: loop_eval parseRow_eval)
  have v_off: "(\<forall>x\<in>set [''John,30'', ''Jane,25''] \<union> set [''Amy,41''].
         line_valid ?off sample_host ?hs x) \<and> preview ?off = 0"
    by (simp add: loop_eval parseRow_eval)
  have s_on: "skipInvalidLines ?on" and s_off: "\<not> skipInvalidLines ?off"
    by (simp_all add: default_options_def)
  show ?thesis
    using
      skipInvalidLines_row_failure [OF e_on kept_on raise_on, THEN conjunct2, THEN mp,
        OF v_on, THEN conjunct1, THEN mp, OF s_on]
      skipInvalidLines_row_failure [OF e_off kept_off raise_off, THEN conjunct2, THEN mp,
        OF v_off, THEN conjunct2, THEN mp, OF s_off]
    by (simp add: numeral_3_eq_3)
qed

text \<open>
  Claim C4. Let the parse of a text enter its row loop with the data lines \<open>dl\<close>. When the
  preview is positive and the rows produced by the lines \<open>pre\<close> have reached it, the parse
  stops before the next line, whatever it and the lines after it are: it returns the result
  of \<open>pre\<close> with \<open>truncated\<close> set. The result has \<open>truncated\<close> set exactly if the preview
  test was reached with the cap met at some line \<open>k\<close>, that is, after the lines before
  \<open>k\<close> were processed. On lines that all give a row, no preview gives as many rows as lines
  and \<open>truncated = false\<close>; a preview \<open>p\<close> below the number of lines gives exactly \<open>p\<close>
  rows and \<open>truncated = true\<close>; so 1000 lines give 10 rows with preview 10, and 1000
  without.
\<close>

theorem preview_cutoff:
  assumes "loop_entry opts csvData = Some (hs, dl, r0)"
  shows "(\<forall>pre l post rk.
            dl = pre @ l # post \<and> process_lines opts h hs pre 0 r0 = Inr rk
              \<and> \<not> truncated (meta rk) \<and> 0 < preview opts
              \<and> preview opts \<le> int (length (data rk)) \<longrightarrow>
            processData opts h csvData
              = Inr (rk\<lparr>meta := (meta rk)\<lparr>truncated := True, rows := length (data rk)\<rparr>\<rparr>))
     \<and> (\<forall>r. processData opts h csvData = Inr r \<longrightarrow>
          (truncated (meta r) \<longleftrightarrow>
             (\<exists>k<length dl. \<exists>rk. process_lines opts h hs (take k dl) 0 r0 = Inr rk
                \<and> preview opts \<noteq> 0 \<and> preview opts \<le> int (length (data rk)))))
     \<and> ((\<forall>l\<in>set dl. line_valid opts h hs l) \<and> preview opts = 0 \<longrightarrow>
          (\<exists>r. processData opts h csvData = Inr r \<and> length (data r) = length dl
             \<and> rows (meta r) = length dl \<and> \<not> truncated (meta r)))
     \<and> ((\<forall>l\<in>set dl. line_valid opts h hs l) \<and> 0 < preview opts
           \<and> preview opts < int (length dl) \<longrightarrow>
          (\<exists>r. processData opts h csvData = Inr r \<and> int (length (data r)) = preview opts
             \<and> int (rows (meta r)) = preview opts \<and> truncated (meta r)))
     \<and> ((\<forall>l\<in>set dl. line_valid opts h hs l) \<and> length dl = 1000 \<and> preview opts = 10 \<longrightarrow>
          (\<exists>r. processData opts h csvData = Inr r \<and> length (data r) = 10
             \<and> truncated (meta r)))
     \<and> ((\<forall>l\<in>set dl. line_valid opts h hs l) \<and> length dl = 1000 \<and> preview opts = 0 \<longrightarrow>
          (\<exists>r. processData opts h csvData = Inr r \<and> length (data r) = 1000
             \<and> \<not> truncated (meta r)))"
proof -
  have pd: "processData opts h csvData = set_rows (process_lines opts h hs dl 0 r0)"
    by (rule processData_loop_entry [OF assms])
  have init: "data r0 = []" "errors r0 = []" "\<not> truncated (meta r0)"
    using loop_entry_initial [OF assms] by simp_all
  have A: "\<forall>pre l post rk.
            dl = pre @ l # post \<and> process_lines opts h hs pre 0 r0 = Inr rk
              \<and> \<not> truncated (meta rk) \<and> 0 < preview opts
              \<and> preview opts \<le> int (length (data rk)) \<longrightarrow>
            processData opts h csvData
              = Inr (rk\<lparr>meta := (meta rk)\<lparr>truncated := True, rows := length (data rk)\<rparr>\<rparr>)"
  proof (intro allI impI, elim conjE)
    fix pre l post rk
    assume dl: "dl = pre @ l # post" and rk: "process_lines opts h hs pre 0 r0 = Inr rk"
      "\<not> truncated (meta rk)" and p: "0 < preview opts" "preview opts \<le> int (length (data rk))"
    have cap: "cap_reached opts rk"
      using p by (simp add: cap_reached_def)
    have "process_lines opts h hs (pre @ l # post) 0 r0
        = process_lines opts h hs (l # post) (length pre) rk"
      using process_lines_append [OF init(3), of opts h hs pre "l # post" 0] rk by simp
    also have "\<dots> = Inr (rk\<lparr>meta := (meta rk)\<lparr>truncated := True\<rparr>\<rparr>)"
      by (rule process_lines_cut [OF cap])
    finally show "processData opts h csvData
              = Inr (rk\<lparr>meta := (meta rk)\<lparr>truncated := True, rows := length (data rk)\<rparr>\<rparr>)"
      by (simp add: pd dl set_rows_Inr)
  qed
  have B: "\<forall>r. processData opts h csvData = Inr r \<longrightarrow>
          (truncated (meta r) \<longleftrightarrow>
             (\<exists>k<length dl. \<exists>rk. process_lines opts h hs (take k dl) 0 r0 = Inr rk
                \<and> preview opts \<noteq> 0 \<and> preview opts \<le> int (length (data rk))))"
  proof (intro allI impI)
    fix r assume "processData opts h csvData = Inr r"
    then obtain r1 where r1: "process_lines opts h hs dl 0 r0 = Inr r1"
      and r: "r = r1\<lparr>meta := (meta r1)\<lparr>rows := length (data r1)\<rparr>\<rparr>"
      by (auto simp: pd set_rows_def split: sum.splits)
    from truncated_iff [OF init(3) r1] r
    show "truncated (meta r) \<longleftrightarrow>
             (\<exists>k<length dl. \<exists>rk. process_lines opts h hs (take k dl) 0 r0 = Inr rk
                \<and> preview opts \<noteq> 0 \<and> preview opts \<le> int (length (data rk)))"
      by (simp add: cap_reached_def)
  qed
  have C: "(\<forall>l\<in>set dl. line_valid opts h hs l) \<and> preview opts = 0 \<longrightarrow>
          (\<exists>r. processData opts h csvData = Inr r \<and> length (data r) = length dl
             \<and> rows (meta r) = length dl \<and> \<not> truncated (meta r))"
  proof (intro impI, elim conjE)
    assume v: "\<forall>l\<in>set dl. line_valid opts h hs l" and p: "preview opts = 0"
    from valid_lines [OF v, of 0 r0] p init
    obtain r1 where "process_lines opts h hs dl 0 r0 = Inr r1" "length (data r1) = length dl"
      "\<not> truncated (meta r1)"
      by auto
    then show "\<exists>r. processData opts h csvData = Inr r \<and> length (data r) = length dl
             \<and> rows (meta r) = length dl \<and> \<not> truncated (meta r)"
      by (simp add: pd set_rows_Inr)
  qed
  have D: "(\<forall>l\<in>set dl. line_valid opts h hs l) \<and> 0 < preview opts
           \<and> preview opts < int (length dl) \<longrightarrow>
          (\<exists>r. processData opts h csvData = Inr r \<and> int (length (data r)) = preview opts
             \<and> int (rows (meta r)) = preview opts \<and> truncated (meta r))"
  proof (intro impI, elim conjE)
    assume v: "\<forall>l\<in>set dl. line_valid opts h hs l" and p: "0 < preview opts"
      "preview opts < int (length dl)"
    then have "dl \<noteq> []" by auto
    with valid_lines [OF v, of 0 r0] p init
    obtain r1 where "process_lines opts h hs dl 0 r0 = Inr r1"
      "int (length (data r1)) = preview opts" "truncated (meta r1)"
      by auto
    then show "\<exists>r. processData opts h csvData = Inr r \<and> int (length (data r)) = preview opts
             \<and> int (rows (meta r)) = preview opts \<and> truncated (meta r)"
      by (simp add: pd set_rows_Inr)
  qed
  have E: "(\<forall>l\<in>set dl. line_valid opts h hs l) \<and> length dl = 1000 \<and> preview opts = 10 \<longrightarrow>
          (\<exists>r. processData opts h csvData = Inr r \<and> length (data r) = 10
             \<and> truncated (meta r))"
    using D by auto
  have F: "(\<forall>l\<in>set dl. line_valid opts h hs l) \<and> length dl = 1000 \<and> preview opts = 0 \<longrightarrow>
          (\<exists>r. processData opts h csvData = Inr r \<and> length (data r) = 1000
             \<and> \<not> truncated (meta r))"
    using C by auto
  from A B C D E F show ?thesis
    by blast
qed

theorem preview_cutoff_witness:
  "(\<exists>r. processData (default_options\<lparr>preview := 2\<rparr>) sample_host
          (''col1,col2'' @ [CHR 0x0A] @ ''val0,0'' @ [CHR 0x0A] @ ''val1,1'' @ [CHR 0x0A]
             @ ''val2,2'') = Inr r
        \<and> int (length (data r)) = 2 \<and> int (rows (meta r)) = 2 \<and> truncated (meta r))
   \<and> (\<exists>r. processData default_options sample_host
          (''col1,col2'' @ [CHR 0x0A] @ ''val0,0'' @ [CHR 0x0A] @ ''val1,1'' @ [CHR 0x0A]
             @ ''val2,2'') = Inr r
        \<and> length (data r) = 3 \<and> rows (meta r) = 3 \<and> \<not> truncated (meta r))"
proof -
  let ?text = "''col1,col2'' @ [CHR 0x0A] @ ''val0,0'' @ [CHR 0x0A] @ ''val1,1'' @ [CHR 0x0A]
             @ ''val2,2''"
  let ?two = "default_options\<lparr>preview := 2\<rparr> :: (nat option, unit, unit) CsvParseOptions"
  let ?none = "default_options :: (nat option, unit, unit) CsvParseOptions"
  let ?hs = "[HeaderString ''col1'', HeaderString ''col2'']"
  let ?dl = "[''val0,0'', ''val1,1'', ''val2,2'']"
  let ?r0 = "\<lparr>data = [], errors = [],
              meta = \<lparr>meta_delimiter = '','', linebreak = [CHR 0x0A], truncated = False,
                      meta_fields = Some ?hs, rows = 0\<rparr>\<rparr>
             :: (nat option, unit, unit) CsvParseResult"
  have e2: "loop_entry ?two ?text = Some (?hs, ?dl, ?r0)"
    by (simp add: entry_eval parseRow_eval)
  have e0: "loop_entry ?none ?text = Some (?hs, ?dl, ?r0)"
    by (simp add: entry_eval parseRow_eval)
  have h2: "(\<forall>l\<in>set ?dl. line_valid ?two sample_host ?hs l) \<and> 0 < preview ?two
      \<and> preview ?two < int (length ?dl)"
    by (simp add: loop_eval parseRow_eval)
  have h0: "(\<forall>l\<in>set ?dl. line_valid ?none sample_host ?hs l) \<and> preview ?none = 0"
    by (simp add: loop_eval parseRow_eval)
  show ?thesis
    using
      mp [OF preview_cutoff [OF e2, THEN conjunct2, THEN conjunct2, THEN conjunct2,
            THEN conjunct1] h2]
      mp [OF preview_cutoff [OF e0, THEN conjunct2, THEN conjunct2, THEN conjunct1] h0]
    by (simp add: numeral_3_eq_3)
qed

subsection \<open>The fields of a row\<close>

lemma forEach_row_object:
  "length xs = length vs \<Longrightarrow>
   \<forall>j<length vs. parse_value opts h hs (vs ! j) (k + j) = Inr (xs ! j) \<Longrightarrow>
   \<forall>j<length vs. property_key h (field_at opts hs (k + j)) \<noteq> ''__proto__'' \<Longrightarrow>
     forEach_row opts h hs vs k (RowObject own DefaultProto)
       = Inr (RowObject (stores opts h hs k xs own) DefaultProto)"
proof (induction vs arbitrary: k xs own)
  case Nil
  then show ?case by simp
next
  case (Cons v vs)
  from Cons.prems(1) obtain x xs' where xs: "xs = x # xs'" and len: "length xs' = length vs"
    by (cases xs) auto
  have pv0: "parse_value opts h hs v k = Inr x"
    using Cons.prems(2) xs by force
  have key0: "property_key h (field_at opts hs k) \<noteq> ''__proto__''"
    using Cons.prems(3) by force
  have pv: "\<forall>j<length vs. parse_value opts h hs (vs ! j) (k + 1 + j) = Inr (xs' ! j)"
  proof (intro allI impI)
    fix j assume "j < length vs"
    then have "parse_value opts h hs ((v # vs) ! Suc j) (k + Suc j) = Inr (xs ! Suc j)"
      using Cons.prems(2) by (metis Suc_less_eq length_Cons)
    then show "parse_value opts h hs (vs ! j) (k + 1 + j) = Inr (xs' ! j)"
      using xs by simp
  qed
  have key: "\<forall>j<length vs. property_key h (field_at opts hs (k + 1 + j)) \<noteq> ''__proto__''"
  proof (intro allI impI)
    fix j assume "j < length vs"
    then have "property_key h (field_at opts hs (k + Suc j)) \<noteq> ''__proto__''"
      using Cons.prems(3) by (metis Suc_less_eq length_Cons)
    then show "property_key h (field_at opts hs (k + 1 + j)) \<noteq> ''__proto__''"
      by simp
  qed
  have st: "store h (RowObject own DefaultProto) (field_at opts hs k) x
      = Inr (RowObject (own(property_key h (field_at opts hs k) \<mapsto> x)) DefaultProto)"
    using key0 by (simp add: assign_def)
  have "forEach_row opts h hs (v # vs) k (RowObject own DefaultProto)
      = forEach_row opts h hs vs (k + 1)
          (RowObject (own(property_key h (field_at opts hs k) \<mapsto> x)) DefaultProto)"
    using pv0 st by simp
  also have "\<dots> = Inr (RowObject (stores opts h hs (k + 1) xs'
      (own(property_key h (field_at opts hs k) \<mapsto> x))) DefaultProto)"
    by (rule Cons.IH [OF len pv key])
  finally show ?case
    by (simp add: xs)
qed

lemma forEach_row_array:
  "length xs = length vs \<Longrightarrow>
   \<forall>j<length vs. parse_value opts h hs (vs ! j) (k + j) = Inr (xs ! j) \<Longrightarrow>
     forEach_row opts h hs vs k (RowArray ys) = Inr (RowArray (ys @ xs))"
proof (induction vs arbitrary: k xs ys)
  case Nil
  then show ?case by simp
next
  case (Cons v vs)
  from Cons.prems(1) obtain x xs' where xs: "xs = x # xs'" and len: "length xs' = length vs"
    by (cases xs) auto
  have pv0: "parse_value opts h hs v k = Inr x"
    using Cons.prems(2) xs by force
  have pv: "\<forall>j<length vs. parse_value opts h hs (vs ! j) (k + 1 + j) = Inr (xs' ! j)"
  proof (intro allI impI)
    fix j assume "j < length vs"
    then have "parse_value opts h hs ((v # vs) ! Suc j) (k + Suc j) = Inr (xs ! Suc j)"
      using Cons.prems(2) by (metis Suc_less_eq length_Cons)
    then show "parse_value opts h hs (vs ! j) (k + 1 + j) = Inr (xs' ! j)"
      using xs by simp
  qed
  show ?case
    using pv0 Cons.IH [OF len pv] xs by simp
qed

lemma stores_object:
  "dom (stores opts h hs k xs m)
       = dom m \<union> (\<lambda>j. property_key h (field_at opts hs j)) ` {k..<k + length xs}
     \<and> (\<forall>j<length xs.
          (\<forall>j'. j < j' \<and> j' < length xs \<longrightarrow>
             property_key h (field_at opts hs (k + j')) \<noteq> property_key h (field_at opts hs (k + j)))
          \<longrightarrow> stores opts h hs k xs m (property_key h (field_at opts hs (k + j))) = Some (xs ! j))
     \<and> (\<forall>q. q \<notin> (\<lambda>j. property_key h (field_at opts hs j)) ` {k..<k + length xs}
          \<longrightarrow> stores opts h hs k xs m q = m q)"
proof (induction xs arbitrary: k m)
  case Nil
  show ?case by simp
next
  case (Cons x xs)
  let ?key = "\<lambda>j. property_key h (field_at opts hs j)"
  let ?m1 = "m(?key k \<mapsto> x)"
  let ?m' = "stores opts h hs (k + 1) xs ?m1"
  from Cons.IH [of "k + 1" ?m1] have
    d: "dom ?m' = dom ?m1 \<union> ?key ` {k + 1..<k + 1 + length xs}"
    and l: "\<forall>j<length xs.
          (\<forall>j'. j < j' \<and> j' < length xs \<longrightarrow> ?key (k + 1 + j') \<noteq> ?key (k + 1 + j))
          \<longrightarrow> ?m' (?key (k + 1 + j)) = Some (xs ! j)"
    and o: "\<forall>q. q \<notin> ?key ` {k + 1..<k + 1 + length xs} \<longrightarrow> ?m' q = ?m1 q"
    by blast+
  have range: "{k..<k + length (x # xs)} = insert k {k + 1..<k + 1 + length xs}"
    by auto
  have 1: "stores opts h hs k (x # xs) m = ?m'"
    by simp
  have 2: "dom ?m' = dom m \<union> ?key ` {k..<k + length (x # xs)}"
    unfolding range using d by auto
  have 3: "\<forall>j<length (x # xs).
          (\<forall>j'. j < j' \<and> j' < length (x # xs) \<longrightarrow> ?key (k + j') \<noteq> ?key (k + j))
          \<longrightarrow> ?m' (?key (k + j)) = Some ((x # xs) ! j)"
  proof (intro allI impI)
    fix j assume j: "j < length (x # xs)"
      and later: "\<forall>j'. j < j' \<and> j' < length (x # xs) \<longrightarrow> ?key (k + j') \<noteq> ?key (k + j)"
    show "?m' (?key (k + j)) = Some ((x # xs) ! j)"
    proof (cases j)
      case 0
      have "?key k \<notin> ?key ` {k + 1..<k + 1 + length xs}"
      proof
        assume "?key k \<in> ?key ` {k + 1..<k + 1 + length xs}"
        then obtain a where a: "a \<in> {k + 1..<k + 1 + length xs}" "?key k = ?key a"
          by blast
        then have "0 < a - k \<and> a - k < length (x # xs) \<and> k + (a - k) = a"
          by auto
        with later 0 a(2) show False
          by (metis add.right_neutral)
      qed
      with o have "?m' (?key k) = ?m1 (?key k)"
        by blast
      with 0 show ?thesis by simp
    next
      case (Suc j0)
      with j have j0: "j0 < length xs" by simp
      have "\<forall>j'. j0 < j' \<and> j' < length xs \<longrightarrow> ?key (k + 1 + j') \<noteq> ?key (k + 1 + j0)"
      proof (intro allI impI)
        fix j' assume "j0 < j' \<and> j' < length xs"
        then have "j < Suc j' \<and> Suc j' < length (x # xs)"
          using Suc by simp
        with later have "?key (k + Suc j') \<noteq> ?key (k + j)"
          by blast
        then show "?key (k + 1 + j') \<noteq> ?key (k + 1 + j0)"
          using Suc by simp
      qed
      with l j0 have "?m' (?key (k + 1 + j0)) = Some (xs ! j0)"
        by blast
      with Suc show ?thesis by simp
    qed
  qed
  have 4: "\<forall>q. q \<notin> ?key ` {k..<k + length (x # xs)} \<longrightarrow> ?m' q = m q"
  proof (intro allI impI)
    fix q assume q: "q \<notin> ?key ` {k..<k + length (x # xs)}"
    then have "q \<noteq> ?key k" and "q \<notin> ?key ` {k + 1..<k + 1 + length xs}"
      unfolding range by auto
    with o show "?m' q = m q"
      by simp
  qed
  from 2 3 4 show ?case
    unfolding 1 by blast
qed

lemma proto_key_raises:
  assumes "header opts" and "parsers opts ''__proto__'' = None"
    and "property_key h (field_at opts hs k) = ''__proto__''"
  shows "isl (parse_value opts h hs v k)"
  using assms by (simp add: parse_value_def Let_def inherited_proto)

lemma process_lines_data:
  "process_lines opts h hs ls i r = Inr r' \<Longrightarrow> \<exists>more. data r' = data r @ more"
proof (induction ls arbitrary: i r)
  case Nil
  then show ?case by simp
next
  case (Cons l ls)
  show ?case
  proof (cases "cap_reached opts r")
    case True
    with Cons.prems process_lines_cut [OF True, of h hs l ls i] show ?thesis
      by auto
  next
    case False
    from Cons.prems obtain r2 where r2: "line_step opts h hs l i r = Inr r2"
      and rest: "process_lines opts h hs ls (i + 1) r2 = Inr r'"
      using process_lines_step [OF False, of h hs l ls i] by (auto split: sum.splits)
    from r2 obtain m1 where "data r2 = data r @ m1"
      by (auto simp: line_step_def split: if_splits sum.splits)
    moreover from Cons.IH [OF rest] obtain m2 where "data r' = data r2 @ m2"
      by blast
    ultimately show ?thesis
      by simp
  qed
qed

lemma key_not_inherited:
  assumes "\<forall>s. HeaderString s \<in> set hs \<longrightarrow> \<not> inherited s"
  shows "\<not> inherited (property_key h (field_at opts hs k)) \<or> \<not> header opts"
proof (cases "header opts \<and> k < length hs")
  case True
  then have "hs ! k \<in> set hs"
    by simp
  with assms True show ?thesis
    by (cases "hs ! k")
       (auto simp: field_at_def not_inherited_function [simplified]
          not_inherited_object_Object)
next
  case False
  then show ?thesis
    by (auto simp: field_at_def not_inherited_undefined)
qed

lemma parse_value_plain:
  assumes "parsers opts = Map.empty" and "transform opts = (\<lambda>v f. Inr v)"
    and "\<forall>s. HeaderString s \<in> set hs \<longrightarrow> \<not> inherited s"
  shows "parse_value opts h hs v k = Inr (convertType opts h v)"
  using assms(1,2) key_not_inherited [OF assms(3), of h opts k]
  by (auto simp: parse_value_def Let_def)

lemma key_image:
  assumes "header opts"
  shows "(\<lambda>j. property_key h (field_at opts hs j)) ` {0..<n}
     = (\<lambda>hd. property_key h (FieldHeader hd)) ` set (take n hs)
         \<union> (if length hs < n then {''undefined''} else {})"
proof -
  let ?key = "\<lambda>j. property_key h (field_at opts hs j)"
  let ?hk = "\<lambda>hd. property_key h (FieldHeader hd)"
  have low: "?key ` {0..<min n (length hs)} = ?hk ` set (take n hs)"
  proof -
    have "?key ` {0..<min n (length hs)} = (\<lambda>j. ?hk (hs ! j)) ` {0..<min n (length hs)}"
      using assms by (intro image_cong) (auto simp: field_at_def)
    also have "\<dots> = ?hk ` ((!) hs ` {0..<min n (length hs)})"
      by (simp add: image_image)
    also have "(!) hs ` {0..<min n (length hs)} = set (take (min n (length hs)) hs)"
      by (rule nth_image) simp
    also have "\<dots> = set (take n hs)"
      by (simp add: min_def)
    finally show ?thesis .
  qed
  have high: "?key ` {min n (length hs)..<n} = (if length hs < n then {''undefined''} else {})"
  proof (cases "length hs < n")
    case True
    then have "?key ` {length hs..<n} = {''undefined''}"
      using assms by (auto simp: field_at_def image_def)
    with True show ?thesis by (simp add: min_def)
  next
    case False
    then show ?thesis by (simp add: min_def)
  qed
  have "{0..<n} = {0..<min n (length hs)} \<union> {min n (length hs)..<n}"
    by auto
  then have "?key ` {0..<n} = ?key ` {0..<min n (length hs)} \<union> ?key ` {min n (length hs)..<n}"
    by (metis image_Un)
  with low high show ?thesis
    by simp
qed

lemma try_row_object:
  assumes "header opts" and "parsers opts ''__proto__'' = None"
    and "\<forall>k<length (parseRow opts line).
           \<not> isl (parse_value opts h hs (parseRow opts line ! k) k)"
  shows "\<exists>m. try_row opts h hs line = Inr (RowObject m DefaultProto)
     \<and> dom m = (\<lambda>hd. property_key h (FieldHeader hd)) ` set (take (length (parseRow opts line)) hs)
                 \<union> (if length hs < length (parseRow opts line) then {''undefined''} else {})
     \<and> (length hs < length (parseRow opts line) \<longrightarrow>
          (\<exists>x. parse_value opts h hs (last (parseRow opts line))
                  (length (parseRow opts line) - 1) = Inr x
             \<and> m ''undefined'' = Some x))"
proof -
  let ?fs = "parseRow opts line"
  let ?key = "\<lambda>j. property_key h (field_at opts hs j)"
  have "\<forall>k<length ?fs. \<exists>x. parse_value opts h hs (?fs ! k) k = Inr x"
  proof (intro allI impI)
    fix k assume "k < length ?fs"
    with assms(3) have "\<not> isl (parse_value opts h hs (?fs ! k) k)"
      by blast
    then show "\<exists>x. parse_value opts h hs (?fs ! k) k = Inr x"
      by (cases "parse_value opts h hs (?fs ! k) k") auto
  qed
  then obtain xs where len: "length xs = length ?fs"
    and pv: "\<forall>k<length ?fs. parse_value opts h hs (?fs ! k) k = Inr (xs ! k)"
    unfolding Skolem_list_nth by blast
  have keys: "\<forall>k<length ?fs. ?key (0 + k) \<noteq> ''__proto__''"
  proof (intro allI impI notI)
    fix k assume "k < length ?fs" and "?key (0 + k) = ''__proto__''"
    with proto_key_raises [OF assms(1,2), of h hs k "?fs ! k"] assms(3) show False
      by simp
  qed
  let ?m = "stores opts h hs 0 xs Map.empty"
  have tr: "try_row opts h hs line = Inr (RowObject ?m DefaultProto)"
    using forEach_row_object [OF len, of opts h hs 0 Map.empty] pv keys assms(1)
    by (simp add: try_row_def)
  from stores_object [of opts h hs 0 xs Map.empty] have
    d: "dom ?m = dom (Map.empty :: string \<rightharpoonup> ('a, 'b, 'c) jsvalue) \<union> ?key ` {0..<0 + length xs}"
    and lst: "\<forall>j<length xs.
          (\<forall>j'. j < j' \<and> j' < length xs \<longrightarrow> ?key (0 + j') \<noteq> ?key (0 + j))
          \<longrightarrow> ?m (?key (0 + j)) = Some (xs ! j)"
    by blast+
  have 2: "dom ?m = (\<lambda>hd. property_key h (FieldHeader hd)) ` set (take (length ?fs) hs)
                 \<union> (if length hs < length ?fs then {''undefined''} else {})"
    using d key_image [OF assms(1), of h hs "length ?fs"] len by simp
  have 3: "length hs < length ?fs \<longrightarrow>
          (\<exists>x. parse_value opts h hs (last ?fs) (length ?fs - 1) = Inr x
             \<and> ?m ''undefined'' = Some x)"
  proof
    assume more: "length hs < length ?fs"
    then have ne: "?fs \<noteq> []" and lastk: "length ?fs - 1 < length xs"
      using len by auto
    have "\<not> length ?fs - 1 < length hs"
      using more by linarith
    then have keyl: "?key (length ?fs - 1) = ''undefined''"
      using assms(1) by (simp add: field_at_def)
    have "?m (?key (0 + (length ?fs - 1))) = Some (xs ! (length ?fs - 1))"
      using lst lastk len by auto
    then have "?m ''undefined'' = Some (xs ! (length ?fs - 1))"
      using keyl by simp
    moreover have "parse_value opts h hs (last ?fs) (length ?fs - 1) = Inr (xs ! (length ?fs - 1))"
      using pv lastk len ne by (simp add: last_conv_nth)
    ultimately show "\<exists>x. parse_value opts h hs (last ?fs) (length ?fs - 1) = Inr x
             \<and> ?m ''undefined'' = Some x"
      by blast
  qed
  from tr 2 3 show ?thesis
    by blast
qed

text \<open>
  Claim C5. For a field whose header has no entry in \<open>parsers\<close> the generic conversion is
  expected. In the code \<open>this.options.parsers[field]\<close> also finds what the object
  \<open>parsers\<close> inherits from \<open>Object.prototype\<close>. With \<open>parsers\<close> empty and a header renamed
  to \<open>__proto__\<close> it finds the object \<open>Object.prototype\<close>, calls it, and the parse raises
  a \<open>TypeError\<close>. With a header renamed to \<open>toString\<close> it calls the inherited function
  and the row holds its result, the string \<open>[object Object]\<close>, instead of the field \<open>1\<close>.
\<close>

theorem inherited_member_used_as_parser:
  "processData (default_options\<lparr>renameHeaders := [''a'' \<mapsto> ''__proto__'']\<rparr>) h
      (''a'' @ [CHR 0x0A] @ ''1'')
     = Inl (ErrorObject (typeErrorMessage h))
   \<and> processData (default_options\<lparr>renameHeaders := [''a'' \<mapsto> ''toString'']\<rparr>) sample_host
      (''a'' @ [CHR 0x0A] @ ''1'')
     = Inr \<lparr>data = [RowObject [''toString'' \<mapsto> VString ''[object Object]''] DefaultProto],
            errors = [],
            meta = \<lparr>meta_delimiter = '','', linebreak = [CHR 0x0A], truncated = False,
                    meta_fields = Some [HeaderString ''toString''], rows = 1\<rparr>\<rparr>"
  by (simp add: processData_def detectNewline_def split_def rename_header_def set_rows_def
      process_lines.simps(2) loop_eval parseRow_eval sample_host_def sample_callInherited_def)

text \<open>
  Claim C9. Let the parse of a text, with headers on, enter its row loop, and take a data
  line \<open>l\<close> that is not filtered and whose fields convert without raising (no parser being
  registered under the own name \<open>__proto__\<close>). Whatever the number of its fields, the
  line gives a row object \<open>m\<close>: the parse goes on after \<open>l\<close> with that row added and no
  error, and when the other data lines give a row too and there is no preview, the result
  has one row per line, \<open>m\<close> at the position of \<open>l\<close>, and no error. The keys of \<open>m\<close> are the
  keys of the headers at the positions that have a field, so the headers beyond the last
  field are absent, and the one key \<open>undefined\<close> if there are more fields than headers;
  under that key the row holds the value of the last field.
\<close>

theorem row_shape_never_checked:
  assumes "loop_entry opts csvData = Some (hs, pre @ l # post, r0)"
    and "header opts" and "line_kept opts l" and "parsers opts ''__proto__'' = None"
    and "\<forall>k<length (parseRow opts (trim l)).
           \<not> isl (parse_value opts h hs (parseRow opts (trim l) ! k) k)"
  shows "\<exists>m. dom m = (\<lambda>hd. property_key h (FieldHeader hd))
                        ` set (take (length (parseRow opts (trim l))) hs)
                 \<union> (if length hs < length (parseRow opts (trim l)) then {''undefined''} else {})
     \<and> (length hs < length (parseRow opts (trim l)) \<longrightarrow>
          (\<exists>x. parse_value opts h hs (last (parseRow opts (trim l)))
                  (length (parseRow opts (trim l)) - 1) = Inr x
             \<and> m ''undefined'' = Some x))
     \<and> (\<forall>r'. process_lines opts h hs pre 0 r0 = Inr r' \<and> \<not> truncated (meta r')
              \<and> \<not> (preview opts \<noteq> 0 \<and> preview opts \<le> int (length (data r'))) \<longrightarrow>
            processData opts h csvData =
              set_rows (process_lines opts h hs post (length pre + 1)
                (r'\<lparr>data := data r' @ [RowObject m DefaultProto]\<rparr>)))
     \<and> ((\<forall>x\<in>set pre \<union> set post. line_valid opts h hs x) \<and> preview opts = 0 \<longrightarrow>
            (\<exists>r. processData opts h csvData = Inr r
               \<and> length (data r) = length pre + 1 + length post
               \<and> data r ! length pre = RowObject m DefaultProto
               \<and> errors r = []))"
proof -
  let ?fs = "parseRow opts (trim l)"
  from try_row_object [OF assms(2,4,5)] obtain m where
    tr: "try_row opts h hs (trim l) = Inr (RowObject m DefaultProto)"
    and d: "dom m = (\<lambda>hd. property_key h (FieldHeader hd)) ` set (take (length ?fs) hs)
                 \<union> (if length hs < length ?fs then {''undefined''} else {})"
    and u: "length hs < length ?fs \<longrightarrow>
          (\<exists>x. parse_value opts h hs (last ?fs) (length ?fs - 1) = Inr x
             \<and> m ''undefined'' = Some x)"
    by blast
  have pd: "processData opts h csvData = set_rows (process_lines opts h hs (pre @ l # post) 0 r0)"
    by (rule processData_loop_entry [OF assms(1)])
  have init: "data r0 = []" "errors r0 = []" "\<not> truncated (meta r0)"
    using loop_entry_initial [OF assms(1)] by simp_all
  have step: "process_lines opts h hs (pre @ l # post) 0 r0 =
      process_lines opts h hs post (length pre + 1)
        (r'\<lparr>data := data r' @ [RowObject m DefaultProto]\<rparr>)"
    if "process_lines opts h hs pre 0 r0 = Inr r'" "\<not> truncated (meta r')"
      "\<not> (preview opts \<noteq> 0 \<and> preview opts \<le> int (length (data r')))" for r'
  proof -
    have nc: "\<not> cap_reached opts r'"
      using that(3) by (simp add: cap_reached_def)
    have "process_lines opts h hs (pre @ l # post) 0 r0
        = process_lines opts h hs (l # post) (length pre) r'"
      using process_lines_append [OF init(3), of opts h hs pre "l # post" 0] that(1,2) by simp
    also have "\<dots> = (case line_step opts h hs l (length pre) r' of
          Inl e \<Rightarrow> Inl e
        | Inr r2 \<Rightarrow> process_lines opts h hs post (length pre + 1) r2)"
      by (rule process_lines_step [OF nc])
    finally show ?thesis
      using assms(3) tr by (simp add: line_step_def)
  qed
  have 3: "\<forall>r'. process_lines opts h hs pre 0 r0 = Inr r' \<and> \<not> truncated (meta r')
              \<and> \<not> (preview opts \<noteq> 0 \<and> preview opts \<le> int (length (data r'))) \<longrightarrow>
            processData opts h csvData =
              set_rows (process_lines opts h hs post (length pre + 1)
                (r'\<lparr>data := data r' @ [RowObject m DefaultProto]\<rparr>))"
    using step by (auto simp: pd)
  have 4: "(\<forall>x\<in>set pre \<union> set post. line_valid opts h hs x) \<and> preview opts = 0 \<longrightarrow>
            (\<exists>r. processData opts h csvData = Inr r
               \<and> length (data r) = length pre + 1 + length post
               \<and> data r ! length pre = RowObject m DefaultProto
               \<and> errors r = [])"
  proof (intro impI, elim conjE)
    assume v: "\<forall>x\<in>set pre \<union> set post. line_valid opts h hs x" and p0: "preview opts = 0"
    from v have vpre: "\<forall>x\<in>set pre. line_valid opts h hs x"
      and vpost: "\<forall>x\<in>set post. line_valid opts h hs x"
      by auto
    from valid_lines [OF vpre, of 0 r0] p0 init
    obtain r' where r': "process_lines opts h hs pre 0 r0 = Inr r'" "errors r' = []"
      "length (data r') = length pre" "\<not> truncated (meta r')"
      by auto
    have nc: "\<not> (preview opts \<noteq> 0 \<and> preview opts \<le> int (length (data r')))"
      using p0 by simp
    let ?r2 = "r'\<lparr>data := data r' @ [RowObject m DefaultProto]\<rparr>"
    from valid_lines [OF vpost, of "length pre + 1" ?r2] p0 r'
    obtain r3 where r3: "process_lines opts h hs post (length pre + 1) ?r2 = Inr r3"
      "errors r3 = []" "length (data r3) = length pre + 1 + length post"
      by auto
    from process_lines_data [OF r3(1)] obtain more where
      "data r3 = (data r' @ [RowObject m DefaultProto]) @ more"
      by auto
    then have "data r3 ! length pre = RowObject m DefaultProto"
      using r'(3) by (simp add: nth_append)
    then show "\<exists>r. processData opts h csvData = Inr r
               \<and> length (data r) = length pre + 1 + length post
               \<and> data r ! length pre = RowObject m DefaultProto
               \<and> errors r = []"
      using step [OF r'(1,4) nc] r3 by (simp add: pd set_rows_Inr)
  qed
  from d u 3 4 show ?thesis
    by blast
qed


theorem row_shape_never_checked_witness:
  "(\<exists>r m. processData default_options sample_host
          (''name,age'' @ [CHR 0x0A] @ ''Bob,30,extra1,extra2'') = Inr r
      \<and> data r = [RowObject m DefaultProto] \<and> errors r = []
      \<and> dom m = {''name'', ''age'', ''undefined''}
      \<and> m ''undefined'' = Some (VString ''extra2''))
   \<and> (\<exists>r m. processData default_options sample_host
          (''name,age'' @ [CHR 0x0A] @ ''Bob'') = Inr r
      \<and> data r = [RowObject m DefaultProto] \<and> errors r = []
      \<and> dom m = {''name''})"
proof -
  let ?opts = "default_options :: (nat option, unit, unit) CsvParseOptions"
  let ?hs = "[HeaderString ''name'', HeaderString ''age'']"
  let ?r0 = "\<lparr>data = [], errors = [],
            meta = \<lparr>meta_delimiter = '','', linebreak = [CHR 0x0A], truncated = False,
                    meta_fields = Some ?hs, rows = 0\<rparr>\<rparr>
           :: (nat option, unit, unit) CsvParseResult"
  have e1: "loop_entry ?opts (''name,age'' @ [CHR 0x0A] @ ''Bob,30,extra1,extra2'')
      = Some (?hs, [] @ ''Bob,30,extra1,extra2'' # [], ?r0)"
    by (simp add: entry_eval parseRow_eval)
  have e2: "loop_entry ?opts (''name,age'' @ [CHR 0x0A] @ ''Bob'')
      = Some (?hs, [] @ ''Bob'' # [], ?r0)"
    by (simp add: entry_eval parseRow_eval)
  have hd: "header ?opts" and np: "parsers ?opts ''__proto__'' = None"
    and k1: "line_kept ?opts ''Bob,30,extra1,extra2''" and k2: "line_kept ?opts ''Bob''"
    by (simp_all add: default_options_def loop_eval)
  have safe: "\<forall>s. HeaderString s \<in> set ?hs \<longrightarrow> \<not> inherited s"
    by (simp add: inherited_def inherited_names_def)
  have ok: "\<forall>k<length (parseRow ?opts (trim l)).
      \<not> isl (parse_value ?opts sample_host ?hs (parseRow ?opts (trim l) ! k) k)" for l
    using parse_value_plain [of ?opts ?hs sample_host, OF _ _ safe]
    by (simp add: default_options_def)
  have v: "(\<forall>x\<in>set [] \<union> set []. line_valid ?opts sample_host ?hs x) \<and> preview ?opts = 0"
    by (simp add: default_options_def)
  have one: "xs = [x]" if "length xs = length ([] :: string list) + 1 + length ([] :: string list)"
    "xs ! length ([] :: string list) = x" for xs :: "(nat option, unit, unit) parsedRow list" and x
    using that by (cases xs) auto
  from row_shape_never_checked [OF e1 hd k1 np ok] v
  obtain m1 r1 where
    d1: "dom m1 = (\<lambda>hd. property_key sample_host (FieldHeader hd))
             ` set (take (length (parseRow ?opts (trim ''Bob,30,extra1,extra2''))) ?hs)
           \<union> (if length ?hs < length (parseRow ?opts (trim ''Bob,30,extra1,extra2''))
              then {''undefined''} else {})"
    and u1: "length ?hs < length (parseRow ?opts (trim ''Bob,30,extra1,extra2'')) \<longrightarrow>
          (\<exists>x. parse_value ?opts sample_host ?hs
                  (last (parseRow ?opts (trim ''Bob,30,extra1,extra2'')))
                  (length (parseRow ?opts (trim ''Bob,30,extra1,extra2'')) - 1) = Inr x
             \<and> m1 ''undefined'' = Some x)"
    and p1: "processData ?opts sample_host
        (''name,age'' @ [CHR 0x0A] @ ''Bob,30,extra1,extra2'') = Inr r1"
      "length (data r1) = length ([] :: string list) + 1 + length ([] :: string list)"
      "data r1 ! length ([] :: string list) = RowObject m1 DefaultProto" "errors r1 = []"
    by blast
  have dm1: "dom m1 = {''name'', ''age'', ''undefined''}"
    using d1 by (auto simp: parseRow_eval trim_def isWhiteSpace_def)
  have um1: "m1 ''undefined'' = Some (VString ''extra2'')"
    using u1 by (simp add: loop_eval parseRow_eval)
  from row_shape_never_checked [OF e2 hd k2 np ok] v
  obtain m2 r2 where
    d2: "dom m2 = (\<lambda>hd. property_key sample_host (FieldHeader hd))
             ` set (take (length (parseRow ?opts (trim ''Bob''))) ?hs)
           \<union> (if length ?hs < length (parseRow ?opts (trim ''Bob''))
              then {''undefined''} else {})"
    and p2: "processData ?opts sample_host (''name,age'' @ [CHR 0x0A] @ ''Bob'') = Inr r2"
      "length (data r2) = length ([] :: string list) + 1 + length ([] :: string list)"
      "data r2 ! length ([] :: string list) = RowObject m2 DefaultProto" "errors r2 = []"
    by blast
  have dm2: "dom m2 = {''name''}"
    using d2 by (auto simp: parseRow_eval trim_def isWhiteSpace_def)
  from p1 one [OF p1(2,3)] dm1 um1 p2 one [OF p2(2,3)] dm2 show ?thesis
    by blast
qed

subsection \<open>Parsing without custom parsers and transforms\<close>

lemma map_throwing_Inr: "map_throwing Inr xs = Inr xs"
  by (induction xs) simp_all

lemma split_from_nonempty: "split_from sep acc s \<noteq> []"
  by (induction sep acc s rule: split_from.induct) auto

lemma split_eq_Nil: "split s sep = [] \<longleftrightarrow> s = [] \<and> sep = []"
  by (simp add: split_def split_from_nonempty)

lemma detectNewline_nonempty: "detectNewline s \<noteq> []"
  by (simp add: detectNewline_def)



lemma try_row_plain:
  assumes "parsers opts = Map.empty" and "transform opts = (\<lambda>v f. Inr v)"
    and "\<forall>s. HeaderString s \<in> set hs \<longrightarrow> \<not> inherited s"
  shows "\<exists>x. try_row opts h hs line = Inr x"
proof (cases "header opts")
  case True
  let ?fs = "parseRow opts line"
  have len: "length (map (convertType opts h) ?fs) = length ?fs"
    by simp
  have pv: "\<forall>j<length ?fs. parse_value opts h hs (?fs ! j) (0 + j)
      = Inr (map (convertType opts h) ?fs ! j)"
    by (simp add: parse_value_plain [OF assms])
  have keys: "\<forall>j<length ?fs. property_key h (field_at opts hs (0 + j)) \<noteq> ''__proto__''"
    using key_not_inherited [OF assms(3), of h opts] True inherited_proto by metis
  show ?thesis
    using forEach_row_object [OF len pv keys, of Map.empty] True by (simp add: try_row_def)
next
  case False
  let ?fs = "parseRow opts line"
  have len: "length (map (convertType opts h) ?fs) = length ?fs"
    by simp
  have pv: "\<forall>j<length ?fs. parse_value opts h hs (?fs ! j) (0 + j)
      = Inr (map (convertType opts h) ?fs ! j)"
    by (simp add: parse_value_plain [OF assms])
  show ?thesis
    using forEach_row_array [OF len pv, of "[]"] False by (simp add: try_row_def)
qed

lemma process_lines_plain:
  assumes "parsers opts = Map.empty" and "transform opts = (\<lambda>v f. Inr v)"
    and "\<forall>s. HeaderString s \<in> set hs \<longrightarrow> \<not> inherited s"
  shows "\<exists>r'. process_lines opts h hs ls i r = Inr r' \<and> errors r' = errors r"
proof (induction ls arbitrary: i r)
  case Nil
  show ?case by simp
next
  case (Cons l ls)
  obtain x where x: "try_row opts h hs (trim l) = Inr x"
    using try_row_plain [OF assms] by blast
  obtain ra where ra: "process_lines opts h hs ls (i + 1) r = Inr ra" "errors ra = errors r"
    using Cons.IH by blast
  obtain rb where rb:
    "process_lines opts h hs ls (i + 1) (r\<lparr>data := data r @ [x]\<rparr>) = Inr rb"
    "errors rb = errors r"
    using Cons.IH [of "i + 1" "r\<lparr>data := data r @ [x]\<rparr>"] by auto
  show ?case
  proof (cases "cap_reached opts r")
    case True
    then show ?thesis
      using process_lines_cut [OF True, of h hs l ls i] by simp
  next
    case False
    then show ?thesis
      using process_lines_step [OF False, of h hs l ls i] x ra rb
      by (simp add: line_step_def)
  qed
qed

lemma rename_header_safe:
  assumes "\<forall>name r. renameHeaders opts name = Some r \<longrightarrow> \<not> inherited (if r \<noteq> [] then r else name)"
  shows "\<forall>s. HeaderString s \<in> set (map (rename_header opts) names) \<longrightarrow> \<not> inherited s"
proof (intro allI impI)
  fix s assume "HeaderString s \<in> set (map (rename_header opts) names)"
  then obtain name where n: "rename_header opts name = HeaderString s"
    by auto
  show "\<not> inherited s"
  proof (cases "renameHeaders opts name")
    case None
    with n show ?thesis
      by (auto simp: rename_header_def split: if_splits)
  next
    case (Some r)
    with n assms show ?thesis
      by (auto simp: rename_header_def split: if_splits)
  qed
qed

lemma processData_plain:
  assumes "parsers opts = Map.empty" and "transform opts = (\<lambda>v f. Inr v)"
    and "transformHeader opts = Inr"
    and "\<forall>name r. renameHeaders opts name = Some r \<longrightarrow> \<not> inherited (if r \<noteq> [] then r else name)"
  shows "\<exists>r. processData opts h csvData = Inr r \<and>
      errors r =
        (if header opts \<and> csvData = [] \<and> newline opts = [] then [empty_file_error] else [])"
proof -
  define lb where "lb = (if newline opts = ''auto'' then detectNewline csvData else newline opts)"
  define r0 :: "('a, 'b, 'c) CsvParseResult" where
    "r0 = \<lparr>data = [], errors = [],
           meta = \<lparr>meta_delimiter = delimiter opts, linebreak = lb, truncated = False,
                   meta_fields = None, rows = 0\<rparr>\<rparr>"
  have e0: "errors r0 = []"
    by (simp add: r0_def)
  have nil: "split csvData lb = [] \<longleftrightarrow> csvData = [] \<and> newline opts = []"
    by (auto simp: split_eq_Nil lb_def detectNewline_nonempty)
  show ?thesis
  proof (cases "header opts")
    case False
    then have ne0: "\<not> (header opts \<and> csvData = [] \<and> newline opts = [])"
      by simp
    have "\<forall>s. HeaderString s \<in> set [] \<longrightarrow> \<not> inherited s"
      by simp
    from process_lines_plain [OF assms(1,2) this, of h "split csvData lb" 0 r0] e0
    obtain r' where r': "process_lines opts h [] (split csvData lb) 0 r0 = Inr r'" "errors r' = []"
      by auto
    show ?thesis
      unfolding processData_def Let_def lb_def [symmetric] r0_def [symmetric]
      using False r' ne0 by (simp add: set_rows_def)
  next
    case True
    show ?thesis
    proof (cases "split csvData lb")
      case Nil
      with nil have "csvData = [] \<and> newline opts = []"
        by simp
      then show ?thesis
        unfolding processData_def Let_def lb_def [symmetric]
        using True Nil by simp
    next
      case (Cons first rest)
      with nil have ne: "\<not> (csvData = [] \<and> newline opts = [])"
        by simp
      define hs where "hs = map (rename_header opts) (parseRow opts first)"
      define r1 where "r1 = r0\<lparr>meta := (meta r0)\<lparr>meta_fields := Some hs\<rparr>\<rparr>"
      have safe: "\<forall>s. HeaderString s \<in> set hs \<longrightarrow> \<not> inherited s"
        unfolding hs_def by (rule rename_header_safe [OF assms(4)])
      from process_lines_plain [OF assms(1,2) safe, of h rest 0 r1] e0
      obtain r' where r': "process_lines opts h hs rest 0 r1 = Inr r'" "errors r' = []"
        by (auto simp: r1_def)
      show ?thesis
        unfolding processData_def Let_def lb_def [symmetric] r0_def [symmetric]
        using True Cons ne r' assms(3)
        by (simp add: set_rows_def map_throwing_Inr hs_def [symmetric] r1_def [symmetric])
    qed
  qed
qed

text \<open>
  Claim C10, as stated: with no custom parsers and the identity transforms, the errors
  list is empty for every input text. It is not: with headers on, the empty text and the
  empty string as line break, \<open>''.split('')\<close> is the empty array and the parse returns the
  \<open>empty_file\<close> error in its list.
\<close>

theorem processData_plain_empty_file_counterexample:
  "processData (default_options\<lparr>newline := []\<rparr> :: (nat option, unit, unit) CsvParseOptions)
       sample_host []
     = Inr \<lparr>data = [], errors = [empty_file_error],
            meta = \<lparr>meta_delimiter = '','', linebreak = [], truncated = False,
                    meta_fields = None, rows = 0\<rparr>\<rparr>"
  by (simp add: processData_def default_options_def split_def Let_def)

text \<open>
  Claim C10, amended. The tokenizer returns a non-empty list of fields for every line and
  any delimiter, quote and escape strings. With no custom parsers, the identity transform
  and the identity header transform, and a rename map that gives no header the name of a
  member inherited from \<open>Object.prototype\<close> (as the default, empty map), the parse of any
  text returns a result (it never raises), and its errors list is empty, except when headers
  are on and the text and the configured line break are both empty: then it is the one
  \<open>empty_file\<close> error.
\<close>

theorem parse_total_without_callbacks:
  assumes "parsers opts = Map.empty" and "transform opts = (\<lambda>v f. Inr v)"
    and "transformHeader opts = Inr"
    and "\<forall>name r. renameHeaders opts name = Some r \<longrightarrow> \<not> inherited (if r \<noteq> [] then r else name)"
  shows "parseRow opts row \<noteq> []
     \<and> (\<exists>r. processData opts h csvData = Inr r \<and>
          errors r =
            (if header opts \<and> csvData = [] \<and> newline opts = [] then [empty_file_error]
             else []))"
  using processData_plain [OF assms] by (simp add: parseRow_def parseRow_loop_nonempty)

theorem parse_total_without_callbacks_witness:
  "parsers (default_options :: (nat option, unit, unit) CsvParseOptions) = Map.empty
   \<and> transform (default_options :: (nat option, unit, unit) CsvParseOptions) = (\<lambda>v f. Inr v)
   \<and> transformHeader (default_options :: (nat option, unit, unit) CsvParseOptions) = Inr
   \<and> renameHeaders (default_options :: (nat option, unit, unit) CsvParseOptions) = Map.empty
   \<and> parseRow (default_options :: (nat option, unit, unit) CsvParseOptions) ''John,30'' \<noteq> []
   \<and> (\<exists>r. processData (default_options :: (nat option, unit, unit) CsvParseOptions) sample_host
             (''toString,age'' @ [CHR 0x0A] @ ''John,30'') = Inr r \<and> errors r = [])"
proof -
  have p: "parsers (default_options :: (nat option, unit, unit) CsvParseOptions) = Map.empty"
    and t: "transform (default_options :: (nat option, unit, unit) CsvParseOptions)
              = (\<lambda>v f. Inr v)"
    and th: "transformHeader (default_options :: (nat option, unit, unit) CsvParseOptions) = Inr"
    and rn: "renameHeaders (default_options :: (nat option, unit, unit) CsvParseOptions)
              = Map.empty"
    by (auto simp: default_options_def)
  have rs: "\<forall>name r. renameHeaders (default_options :: (nat option, unit, unit) CsvParseOptions)
        name = Some r \<longrightarrow> \<not> inherited (if r \<noteq> [] then r else name)"
    by (simp add: rn)
  show ?thesis
    using p t th rn
      parse_total_without_callbacks [OF p t th rs, of "''John,30''" sample_host
        "''toString,age'' @ [CHR 0x0A] @ ''John,30''"]
    by simp
qed

subsection \<open>The parse on the inputs of the basic tests\<close>

text \<open>The inputs and the expected results of \<open>should parse simple CSV text with headers\<close>
  and \<open>should parse CSV text without headers\<close> (test/parser.test.ts).\<close>

lemma processData_basic_example:
  "processData default_options sample_host
      (''name,age'' @ [CHR 0x0A] @ ''John,30'' @ [CHR 0x0A] @ ''Jane,25'')
     = Inr \<lparr>data = [RowObject [''name'' \<mapsto> VString ''John'', ''age'' \<mapsto> VString ''30'']
                      DefaultProto,
                    RowObject [''name'' \<mapsto> VString ''Jane'', ''age'' \<mapsto> VString ''25'']
                      DefaultProto],
            errors = [],
            meta = \<lparr>meta_delimiter = '','', linebreak = [CHR 0x0A], truncated = False,
                    meta_fields = Some [HeaderString ''name'', HeaderString ''age''],
                    rows = 2\<rparr>\<rparr>"
  by (simp add: processData_def detectNewline_def split_def rename_header_def set_rows_def
      process_lines.simps(2) loop_eval parseRow_eval)

lemma processData_no_header_example:
  "processData (default_options\<lparr>header := False\<rparr>) sample_host
      (''John,30'' @ [CHR 0x0A] @ ''Jane,25'')
     = Inr \<lparr>data = [RowArray [VString ''John'', VString ''30''],
                    RowArray [VString ''Jane'', VString ''25'']],
            errors = [],
            meta = \<lparr>meta_delimiter = '','', linebreak = [CHR 0x0A], truncated = False,
                    meta_fields = None, rows = 2\<rparr>\<rparr>"
  by (simp add: processData_def detectNewline_def split_def rename_header_def set_rows_def
      process_lines.simps(2) loop_eval parseRow_eval)

end
